theory Spec2Isabelle
  imports Main
begin

section \<open>Data model (avl.h)\<close>

text \<open>
  Nodes live in caller-owned memory.  A non-null node pointer is an address, a
  possibly-null pointer is an \<^verbatim>\<open>addr option\<close> (\<^verbatim>\<open>None\<close> is \<^verbatim>\<open>NULL\<close>).
  The two-element array \<^verbatim>\<open>avl_children\<close> is a function on the C index; only the
  indices 0 and 1 are inside the array.  Balance factors are C \<^verbatim>\<open>int\<close>s; signed
  overflow is undefined in C and all values the library computes from a tree it
  maintains are between -2 and 2, so they are modelled as mathematical integers.
\<close>

type_synonym addr = nat

record avl_node =
  avl_children :: "int \<Rightarrow> addr option"
  avl_parent :: "addr option"
  avl_balance :: int

text \<open>
  The program state is the root handle and the memory holding the nodes.  The field
  \<^verbatim>\<open>rebalance_calls\<close> is a ghost counter: it counts the invocations of
  \<^verbatim>\<open>avl_rebalance\<close> and is read by no function of the library.
\<close>

record avl_state =
  avl_root :: "addr option"
  heap :: "addr \<Rightarrow> avl_node"
  rebalance_calls :: nat

type_synonym avl_cmp_t = "addr \<Rightarrow> addr \<Rightarrow> int"

text \<open>A place a node pointer is stored in: the root handle or a child slot of a node.\<close>

datatype slot = Root_slot | Child_slot addr int

definition set_child :: "avl_state \<Rightarrow> addr \<Rightarrow> int \<Rightarrow> addr option \<Rightarrow> avl_state" where
  "set_child s a i v =
     s\<lparr>heap := (heap s)(a := (heap s a)\<lparr>avl_children := (avl_children (heap s a))(i := v)\<rparr>)\<rparr>"

definition set_parent :: "avl_state \<Rightarrow> addr \<Rightarrow> addr option \<Rightarrow> avl_state" where
  "set_parent s a v = s\<lparr>heap := (heap s)(a := (heap s a)\<lparr>avl_parent := v\<rparr>)\<rparr>"

definition set_balance :: "avl_state \<Rightarrow> addr \<Rightarrow> int \<Rightarrow> avl_state" where
  "set_balance s a v = s\<lparr>heap := (heap s)(a := (heap s a)\<lparr>avl_balance := v\<rparr>)\<rparr>"

text \<open>The idiom \<^verbatim>\<open>if (B) B->avl_parent = R;\<close>.\<close>

definition set_parent_opt :: "avl_state \<Rightarrow> addr option \<Rightarrow> addr option \<Rightarrow> avl_state" where
  "set_parent_opt s p v = (case p of None \<Rightarrow> s | Some a \<Rightarrow> set_parent s a v)"

definition store_slot :: "avl_state \<Rightarrow> slot \<Rightarrow> addr option \<Rightarrow> avl_state" where
  "store_slot s sl v =
     (case sl of Root_slot \<Rightarrow> s\<lparr>avl_root := v\<rparr> | Child_slot a i \<Rightarrow> set_child s a i v)"

subsection \<open>Macros and inline helpers\<close>

definition avl_cmp2idx :: "int \<Rightarrow> int" where
  "avl_cmp2idx c = (if c < 0 then 0 else 1)"

definition avl_balance2idx :: "int \<Rightarrow> int" where
  "avl_balance2idx c = (if c < 0 then 0 else 1)"

definition avl_idx2cmp :: "int \<Rightarrow> int" where
  "avl_idx2cmp i = (if i = 0 then - 1 else 1)"

text \<open>The C operator \<^verbatim>\<open>!\<close> on an index.\<close>

definition lnot :: "int \<Rightarrow> int" where
  "lnot i = (if i = 0 then 1 else 0)"

definition avl_which_child :: "avl_state \<Rightarrow> addr \<Rightarrow> int" where
  "avl_which_child s node =
     (case avl_parent (heap s node) of
        None \<Rightarrow> - 1
      | Some parent \<Rightarrow> if Some node = avl_children (heap s parent) 0 then 0 else 1)"

definition avl_abs_balance :: "int \<Rightarrow> int" where
  "avl_abs_balance b = (if b < 0 then b * - 1 else b)"

section \<open>Search and traversal (avl.c)\<close>

text \<open>
  Every loop of the library follows pointers and need not terminate on an arbitrary
  heap, so the loops are partial functions: \<^verbatim>\<open>None\<close> is "does not return", which
  also stands for dereferencing \<^verbatim>\<open>NULL\<close> and for indexing outside an array.
\<close>

partial_function (option) avl_search_loop ::
  "avl_cmp_t \<Rightarrow> avl_state \<Rightarrow> addr option \<Rightarrow> addr \<Rightarrow> addr option option" where
  "avl_search_loop cmpfunc s retval key =
     (case retval of
        None \<Rightarrow> Some None
      | Some r \<Rightarrow>
          if cmpfunc key r = 0 then Some (Some r)
          else avl_search_loop cmpfunc s
                 (avl_children (heap s r) (avl_cmp2idx (cmpfunc key r))) key)"

definition avl_search :: "avl_cmp_t \<Rightarrow> avl_state \<Rightarrow> addr \<Rightarrow> addr option option" where
  "avl_search cmpfunc s key = avl_search_loop cmpfunc s (avl_root s) key"

text \<open>The two loops of \<^verbatim>\<open>avl_prev_next\<close>: down to the extreme node, up the parents.\<close>

partial_function (option) avl_descend :: "avl_state \<Rightarrow> int \<Rightarrow> addr \<Rightarrow> addr option" where
  "avl_descend s i node =
     (case avl_children (heap s node) i of
        None \<Rightarrow> Some node
      | Some c \<Rightarrow> avl_descend s i c)"

partial_function (option) avl_climb ::
  "avl_state \<Rightarrow> int \<Rightarrow> addr option \<Rightarrow> addr \<Rightarrow> addr option option" where
  "avl_climb s which_child parent node =
     (case parent of
        None \<Rightarrow> Some None
      | Some p \<Rightarrow>
          if avl_children (heap s p) which_child = Some node
          then avl_climb s which_child (avl_parent (heap s p)) p
          else Some (Some p))"

definition avl_prev_next :: "avl_state \<Rightarrow> addr \<Rightarrow> int \<Rightarrow> addr option option" where
  "avl_prev_next s node dir =
     (let which_child = avl_cmp2idx dir in
      case avl_children (heap s node) which_child of
        Some c \<Rightarrow> map_option Some (avl_descend s (lnot which_child) c)
      | None \<Rightarrow> avl_climb s which_child (avl_parent (heap s node)) node)"

partial_function (option) avl_lr_loop ::
  "avl_state \<Rightarrow> int \<Rightarrow> addr option \<Rightarrow> addr option \<Rightarrow> addr option option" where
  "avl_lr_loop s which_child node prev =
     (case node of
        None \<Rightarrow> Some prev
      | Some n \<Rightarrow> avl_lr_loop s which_child (avl_children (heap s n) which_child) (Some n))"

definition avl_leftmost_rightmost :: "avl_state \<Rightarrow> int \<Rightarrow> addr option option" where
  "avl_leftmost_rightmost s dir = avl_lr_loop s (avl_cmp2idx dir) (avl_root s) None"

definition avl_first :: "avl_state \<Rightarrow> addr option option" where
  "avl_first s = avl_leftmost_rightmost s (- 1)"

definition avl_last :: "avl_state \<Rightarrow> addr option option" where
  "avl_last s = avl_leftmost_rightmost s 1"

definition avl_prev :: "avl_state \<Rightarrow> addr \<Rightarrow> addr option option" where
  "avl_prev s node = avl_prev_next s node (- 1)"

definition avl_next :: "avl_state \<Rightarrow> addr \<Rightarrow> addr option option" where
  "avl_next s node = avl_prev_next s node 1"

section \<open>The rotation engine\<close>

definition slot_of :: "avl_state \<Rightarrow> addr \<Rightarrow> slot" where
  "slot_of s R =
     (case avl_parent (heap s R) of
        None \<Rightarrow> Root_slot
      | Some R_parent \<Rightarrow> Child_slot R_parent (avl_which_child s R))"

definition avl_rebalance :: "avl_state \<Rightarrow> addr \<Rightarrow> (int \<times> avl_state) option" where
  "avl_rebalance s0 node =
     (let s = s0\<lparr>rebalance_calls := Suc (rebalance_calls s0)\<rparr>;
          which_child = avl_balance2idx (avl_balance (heap s node))
      in case avl_children (heap s node) which_child of
        None \<Rightarrow> None
      | Some child \<Rightarrow>
          if avl_balance (heap s node) = avl_balance (heap s child) then
            (let R = node; S = child;
                 R_parent = avl_parent (heap s R);
                 B = avl_children (heap s S) (lnot which_child);
                 slot = slot_of s R;
                 s = store_slot s slot (Some S);
                 s = set_parent s S R_parent;
                 s = set_parent s R (Some S);
                 s = set_child s S (lnot which_child) (Some R);
                 s = set_child s R which_child B;
                 s = set_parent_opt s B (Some R);
                 s = set_balance s R 0;
                 s = set_balance s S 0
             in Some (1, s))
          else if avl_balance (heap s child) \<noteq> 0 then
            (let R = node; S = child in
             case avl_children (heap s S) (lnot which_child) of
               None \<Rightarrow> None
             | Some Q \<Rightarrow>
                 (let R_parent = avl_parent (heap s R);
                      B = avl_children (heap s Q) (lnot which_child);
                      C = avl_children (heap s Q) which_child;
                      slot = slot_of s R;
                      s = store_slot s slot (Some Q);
                      s = set_parent s Q R_parent;
                      s = set_child s R which_child B;
                      s = set_parent_opt s B (Some R);
                      s = set_child s S (lnot which_child) C;
                      s = set_parent_opt s C (Some S);
                      s = set_child s Q (lnot which_child) (Some R);
                      s = set_parent s R (Some Q);
                      s = set_child s Q which_child (Some S);
                      s = set_parent s S (Some Q);
                      s = (if avl_balance (heap s Q) = avl_balance (heap s S) then
                             (let s = set_balance s S (avl_balance (heap s Q) * - 1)
                              in set_balance s R 0)
                           else if avl_balance (heap s Q) \<noteq> 0 then
                             (let s = set_balance s R (avl_balance (heap s Q) * - 1)
                              in set_balance s S 0)
                           else
                             (let s = set_balance s S 0
                              in set_balance s R 0));
                      s = set_balance s Q 0
                  in Some (1, s)))
          else
            (let R = node; S = child;
                 R_parent = avl_parent (heap s R);
                 B = avl_children (heap s S) (lnot which_child);
                 slot = slot_of s R;
                 s = store_slot s slot (Some S);
                 s = set_parent s S R_parent;
                 s = set_parent s R (Some S);
                 s = set_child s S (lnot which_child) (Some R);
                 s = set_child s R which_child B;
                 s = set_parent_opt s B (Some R);
                 s = set_balance s S (avl_balance (heap s R) * - 1)
             in Some (0, s)))"

section \<open>Insertion\<close>

text \<open>
  The descent of \<^verbatim>\<open>avl_insert\<close>: \<^verbatim>\<open>Inl cur\<close> when a node comparing equal is
  found, \<^verbatim>\<open>Inr (curp, parent)\<close> with the empty slot reached and its owner otherwise.
\<close>

partial_function (option) avl_insert_descend ::
  "avl_cmp_t \<Rightarrow> avl_state \<Rightarrow> addr \<Rightarrow> slot \<Rightarrow> addr option \<Rightarrow> addr option
     \<Rightarrow> (addr + slot \<times> addr option) option" where
  "avl_insert_descend cmpfunc s node curp cur parent =
     (case cur of
        None \<Rightarrow> Some (Inr (curp, parent))
      | Some c \<Rightarrow>
          if cmpfunc node c = 0 then Some (Inl c)
          else avl_insert_descend cmpfunc s node
                 (Child_slot c (avl_cmp2idx (cmpfunc node c)))
                 (avl_children (heap s c) (avl_cmp2idx (cmpfunc node c)))
                 (Some c))"

partial_function (option) avl_insert_retrace ::
  "avl_state \<Rightarrow> addr \<Rightarrow> addr option \<Rightarrow> avl_state option" where
  "avl_insert_retrace s node parent =
     (case parent of
        None \<Rightarrow> Some s
      | Some p \<Rightarrow>
          if avl_abs_balance
               (avl_balance (heap s p) + avl_idx2cmp (avl_which_child s node)) = 0
          then Some (set_balance s p
                 (avl_balance (heap s p) + avl_idx2cmp (avl_which_child s node)))
          else if avl_abs_balance
               (avl_balance (heap s p) + avl_idx2cmp (avl_which_child s node)) = 1
          then avl_insert_retrace
                 (set_balance s p
                    (avl_balance (heap s p) + avl_idx2cmp (avl_which_child s node)))
                 p (avl_parent (heap s p))
          else map_option snd (avl_rebalance s p))"

definition avl_insert :: "avl_cmp_t \<Rightarrow> avl_state \<Rightarrow> addr \<Rightarrow> (addr \<times> avl_state) option" where
  "avl_insert cmpfunc s node =
     (case avl_insert_descend cmpfunc s node Root_slot (avl_root s) None of
        None \<Rightarrow> None
      | Some (Inl cur) \<Rightarrow> Some (cur, s)
      | Some (Inr (curp, parent)) \<Rightarrow>
          (let cur = node;
               s = store_slot s curp (Some node);
               s = set_parent s cur parent;
               s = set_balance s cur 0;
               s = set_child s cur 1 None;
               s = set_child s cur 0 None
           in map_option (Pair cur) (avl_insert_retrace s node parent)))"

section \<open>Removal\<close>

partial_function (option) avl_remove_retrace ::
  "avl_state \<Rightarrow> addr option \<Rightarrow> int \<Rightarrow> avl_state option" where
  "avl_remove_retrace s parent which_child =
     (case parent of
        None \<Rightarrow> Some s
      | Some node \<Rightarrow>
          if avl_abs_balance
               (avl_balance (heap s node) + avl_idx2cmp which_child * - 1) = 0
          then avl_remove_retrace
                 (set_balance s node
                    (avl_balance (heap s node) + avl_idx2cmp which_child * - 1))
                 (avl_parent (heap s node)) (avl_which_child s node)
          else if avl_abs_balance
               (avl_balance (heap s node) + avl_idx2cmp which_child * - 1) = 1
          then Some (set_balance s node
                 (avl_balance (heap s node) + avl_idx2cmp which_child * - 1))
          else
            (case avl_rebalance s node of
               None \<Rightarrow> None
             | Some (r, s') \<Rightarrow>
                 if r = 0 then Some s'
                 else avl_remove_retrace s'
                        (avl_parent (heap s node)) (avl_which_child s node)))"

text \<open>
  The replacement chosen by \<^verbatim>\<open>avl_remove\<close> for a node with a child: the in-order
  predecessor when the balance is negative, the successor otherwise, and the other
  neighbour when the preferred one is \<^verbatim>\<open>NULL\<close>.
\<close>

definition avl_remove_pick :: "avl_state \<Rightarrow> addr \<Rightarrow> addr option option" where
  "avl_remove_pick s node =
     (if avl_balance (heap s node) < 0 then
        (case avl_prev_next s node (- 1) of
           None \<Rightarrow> None
         | Some None \<Rightarrow> avl_prev_next s node 1
         | Some (Some child) \<Rightarrow> Some (Some child))
      else
        (case avl_prev_next s node 1 of
           None \<Rightarrow> None
         | Some None \<Rightarrow> avl_prev_next s node (- 1)
         | Some (Some child) \<Rightarrow> Some (Some child)))"

definition avl_remove :: "avl_state \<Rightarrow> addr \<Rightarrow> avl_state option" where
  "avl_remove s node =
     (if avl_children (heap s node) 0 = None \<and> avl_children (heap s node) 1 = None then
        (case avl_parent (heap s node) of
           None \<Rightarrow> Some (s\<lparr>avl_root := None\<rparr>)
         | Some parent \<Rightarrow>
             (let which_child = avl_which_child s node;
                  s = set_child s parent which_child None
              in avl_remove_retrace s (Some parent) which_child))
      else
        (case avl_remove_pick s node of
           None \<Rightarrow> None
         | Some None \<Rightarrow> None
         | Some (Some child) \<Rightarrow>
             (let gchild_idx = avl_balance2idx (avl_balance (heap s child));
                  gchild = avl_children (heap s child) gchild_idx;
                  which_child = avl_which_child s child
              in case
                   (if avl_parent (heap s child) \<noteq> Some node then
                      (case avl_parent (heap s child) of
                         None \<Rightarrow> None
                       | Some parent \<Rightarrow>
                           (let s = set_child s child which_child
                                      (avl_children (heap s node) which_child);
                                s = set_parent_opt s
                                      (avl_children (heap s child) which_child) (Some child);
                                s = set_child s parent which_child gchild;
                                s = set_parent_opt s gchild (Some parent)
                            in Some (parent, s)))
                    else Some (child, s))
                 of
                   None \<Rightarrow> None
                 | Some (parent, s) \<Rightarrow>
                     (let s = set_child s child (lnot which_child)
                                (avl_children (heap s node) (lnot which_child));
                          s = set_parent_opt s
                                (avl_children (heap s child) (lnot which_child)) (Some child);
                          s = set_balance s child (avl_balance (heap s node));
                          s = set_parent s child (avl_parent (heap s node))
                      in case
                           (case avl_parent (heap s child) of
                              None \<Rightarrow> Some (s\<lparr>avl_root := Some child\<rparr>)
                            | Some _ \<Rightarrow>
                                (case avl_parent (heap s node) of
                                   None \<Rightarrow> None
                                 | Some np \<Rightarrow>
                                     Some (set_child s np (avl_which_child s node)
                                             (Some child))))
                         of
                           None \<Rightarrow> None
                         | Some s \<Rightarrow> avl_remove_retrace s (Some parent) which_child))))"

text \<open>
  The part of \<^verbatim>\<open>avl_remove\<close> before its retrace loop: the state after the splice, and
  the values of \<^verbatim>\<open>parent\<close> and \<^verbatim>\<open>which_child\<close> the loop starts with.
\<close>

definition avl_remove_unlink :: "avl_state \<Rightarrow> addr \<Rightarrow> (avl_state \<times> addr option \<times> int) option" where
  "avl_remove_unlink s node =
     (if avl_children (heap s node) 0 = None \<and> avl_children (heap s node) 1 = None then
        (case avl_parent (heap s node) of
           None \<Rightarrow> Some (s\<lparr>avl_root := None\<rparr>, None, 0)
         | Some parent \<Rightarrow>
             Some (set_child s parent (avl_which_child s node) None, Some parent,
                   avl_which_child s node))
      else
        (case avl_remove_pick s node of
           None \<Rightarrow> None
         | Some None \<Rightarrow> None
         | Some (Some child) \<Rightarrow>
             (let gchild_idx = avl_balance2idx (avl_balance (heap s child));
                  gchild = avl_children (heap s child) gchild_idx;
                  which_child = avl_which_child s child
              in case
                   (if avl_parent (heap s child) \<noteq> Some node then
                      (case avl_parent (heap s child) of
                         None \<Rightarrow> None
                       | Some parent \<Rightarrow>
                           (let s = set_child s child which_child
                                      (avl_children (heap s node) which_child);
                                s = set_parent_opt s
                                      (avl_children (heap s child) which_child) (Some child);
                                s = set_child s parent which_child gchild;
                                s = set_parent_opt s gchild (Some parent)
                            in Some (parent, s)))
                    else Some (child, s))
                 of
                   None \<Rightarrow> None
                 | Some (parent, s) \<Rightarrow>
                     (let s = set_child s child (lnot which_child)
                                (avl_children (heap s node) (lnot which_child));
                          s = set_parent_opt s
                                (avl_children (heap s child) (lnot which_child)) (Some child);
                          s = set_balance s child (avl_balance (heap s node));
                          s = set_parent s child (avl_parent (heap s node))
                      in case
                           (case avl_parent (heap s child) of
                              None \<Rightarrow> Some (s\<lparr>avl_root := Some child\<rparr>)
                            | Some _ \<Rightarrow>
                                (case avl_parent (heap s node) of
                                   None \<Rightarrow> None
                                 | Some np \<Rightarrow>
                                     Some (set_child s np (avl_which_child s node)
                                             (Some child))))
                         of
                           None \<Rightarrow> None
                         | Some s \<Rightarrow> Some (s, Some parent, which_child)))))"

section \<open>Trees, contexts and their layout in memory\<close>

datatype tree = Leaf | Node tree addr int tree

fun ht :: "tree \<Rightarrow> int" where
  "ht Leaf = 0"
| "ht (Node l a b r) = 1 + max (ht l) (ht r)"

fun nodes :: "tree \<Rightarrow> addr set" where
  "nodes Leaf = {}"
| "nodes (Node l a b r) = insert a (nodes l \<union> nodes r)"

fun inorder :: "tree \<Rightarrow> addr list" where
  "inorder Leaf = []"
| "inorder (Node l a b r) = inorder l @ a # inorder r"

fun root_ptr :: "tree \<Rightarrow> addr option" where
  "root_ptr Leaf = None"
| "root_ptr (Node l a b r) = Some a"

fun balanced :: "tree \<Rightarrow> bool" where
  "balanced Leaf = True"
| "balanced (Node l a b r) = (b = ht r - ht l \<and> \<bar>b\<bar> \<le> 1 \<and> balanced l \<and> balanced r)"

definition idx :: "bool \<Rightarrow> int" where
  "idx d = (if d then 1 else 0)"

definition sg :: "bool \<Rightarrow> int" where
  "sg d = (if d then 1 else - 1)"

definition mk :: "bool \<Rightarrow> addr \<Rightarrow> int \<Rightarrow> tree \<Rightarrow> tree \<Rightarrow> tree" where
  "mk d a b t u = (if d then Node u a b t else Node t a b u)"

definition trav :: "bool \<Rightarrow> tree \<Rightarrow> addr list" where
  "trav d t = (if d then inorder t else rev (inorder t))"

definition par_ok :: "(addr \<Rightarrow> avl_node) \<Rightarrow> addr option \<Rightarrow> addr option \<Rightarrow> bool" where
  "par_ok h p par = (\<forall>a. p = Some a \<longrightarrow> avl_parent (h a) = par)"

fun rep :: "(addr \<Rightarrow> avl_node) \<Rightarrow> tree \<Rightarrow> bool" where
  "rep h Leaf = True"
| "rep h (Node l a b r) =
     (avl_children (h a) 0 = root_ptr l \<and> avl_children (h a) 1 = root_ptr r \<and>
      avl_balance (h a) = b \<and>
      par_ok h (root_ptr l) (Some a) \<and> par_ok h (root_ptr r) (Some a) \<and>
      a \<notin> nodes l \<and> a \<notin> nodes r \<and> nodes l \<inter> nodes r = {} \<and>
      rep h l \<and> rep h r)"

type_synonym frame = "bool \<times> addr \<times> int \<times> tree"

fun plug :: "frame list \<Rightarrow> tree \<Rightarrow> tree" where
  "plug [] t = t"
| "plug ((d, a, b, u) # c) t = plug c (mk d a b t u)"

fun ctx_nodes :: "frame list \<Rightarrow> addr set" where
  "ctx_nodes [] = {}"
| "ctx_nodes ((d, a, b, u) # c) = insert a (nodes u \<union> ctx_nodes c)"

fun ctx_par :: "frame list \<Rightarrow> addr option" where
  "ctx_par [] = None"
| "ctx_par ((d, a, b, u) # c) = Some a"

fun ctx_slot :: "frame list \<Rightarrow> slot" where
  "ctx_slot [] = Root_slot"
| "ctx_slot ((d, a, b, u) # c) = Child_slot a (idx d)"

fun rep_ctx :: "(addr \<Rightarrow> avl_node) \<Rightarrow> addr option \<Rightarrow> frame list \<Rightarrow> addr option \<Rightarrow> bool" where
  "rep_ctx h root [] p = (root = p)"
| "rep_ctx h root ((d, a, b, u) # c) p =
     (avl_children (h a) (idx d) = p \<and> avl_children (h a) (idx (\<not> d)) = root_ptr u \<and>
      avl_balance (h a) = b \<and> avl_parent (h a) = ctx_par c \<and>
      par_ok h (root_ptr u) (Some a) \<and>
      a \<notin> nodes u \<and> a \<notin> ctx_nodes c \<and> nodes u \<inter> ctx_nodes c = {} \<and>
      rep h u \<and> rep_ctx h root c (Some a))"

definition zip_rep :: "avl_state \<Rightarrow> frame list \<Rightarrow> tree \<Rightarrow> bool" where
  "zip_rep s c t =
     (rep_ctx (heap s) (avl_root s) c (root_ptr t) \<and> rep (heap s) t \<and>
      par_ok (heap s) (root_ptr t) (ctx_par c) \<and> nodes t \<inter> ctx_nodes c = {})"

definition heap_tree :: "avl_state \<Rightarrow> tree \<Rightarrow> bool" where
  "heap_tree s t = zip_rep s [] t"

subsection \<open>Direction-generic view of a node\<close>

lemma idx_simps [simp]:
  "idx True = 1" "idx False = 0" "idx d = 0 \<longleftrightarrow> \<not> d" "idx d = 1 \<longleftrightarrow> d"
  "idx d = idx e \<longleftrightarrow> d = e" "0 = idx d \<longleftrightarrow> \<not> d" "1 = idx d \<longleftrightarrow> d"
  "lnot (idx d) = idx (\<not> d)" "avl_idx2cmp (idx d) = sg d"
  by (auto simp: idx_def lnot_def avl_idx2cmp_def sg_def)

lemma sg_simps [simp]:
  "sg True = 1" "sg False = - 1" "sg (\<not> d) = - sg d" "sg d \<noteq> 0" "\<bar>sg d\<bar> = 1"
  "sg d * sg d = 1" "sg d = sg e \<longleftrightarrow> d = e"
  by (auto simp: sg_def)

lemma balance2idx_sg [simp]: "avl_balance2idx (sg d) = idx d" "avl_cmp2idx (sg d) = idx d"
  by (auto simp: avl_balance2idx_def avl_cmp2idx_def sg_def idx_def)

lemma mk_simps [simp]:
  "ht (mk d a b t u) = 1 + max (ht t) (ht u)"
  "nodes (mk d a b t u) = insert a (nodes t \<union> nodes u)"
  "root_ptr (mk d a b t u) = Some a"
  "mk d a b t u \<noteq> Leaf"
  "balanced (mk d a b t u) = (b = sg d * (ht t - ht u) \<and> \<bar>b\<bar> \<le> 1 \<and> balanced t \<and> balanced u)"
  by (auto simp: mk_def)

lemma rep_mk [simp]:
  "rep h (mk d a b t u) =
     (avl_children (h a) (idx d) = root_ptr t \<and> avl_children (h a) (idx (\<not> d)) = root_ptr u \<and>
      avl_balance (h a) = b \<and>
      par_ok h (root_ptr t) (Some a) \<and> par_ok h (root_ptr u) (Some a) \<and>
      a \<notin> nodes t \<and> a \<notin> nodes u \<and> nodes t \<inter> nodes u = {} \<and>
      rep h t \<and> rep h u)"
  by (auto simp: mk_def)

lemma trav_mk [simp]:
  "trav e (mk d a b t u) =
     (if e = d then trav e u @ a # trav e t else trav e t @ a # trav e u)"
  "trav e Leaf = []"
  by (auto simp: mk_def trav_def)

lemma mk_eq_iff [simp]:
  "mk d a b t u = mk d a' b' t' u' \<longleftrightarrow> a = a' \<and> b = b' \<and> t = t' \<and> u = u'"
  by (auto simp: mk_def)

lemma Node_is_mk: "\<exists>t u. Node l a b r = mk d a b t u"
  by (cases d) (auto simp: mk_def)

lemma tree_cases_mk: "t = Leaf \<or> (\<exists>a b x y. t = mk d a b x y)"
  using Node_is_mk by (cases t) blast+

lemma root_ptr_nodes: "root_ptr t = Some a \<Longrightarrow> a \<in> nodes t"
  by (cases t) auto

lemma root_ptr_None [simp]: "root_ptr t = None \<longleftrightarrow> t = Leaf"
  by (cases t) auto

lemma set_trav [simp]: "set (trav e t) = nodes t"
  by (induction t) (auto simp: trav_def)

subsection \<open>Reading the state after a write\<close>

definition upd_node :: "avl_state \<Rightarrow> addr \<Rightarrow> (avl_node \<Rightarrow> avl_node) \<Rightarrow> avl_state" where
  "upd_node s a f = s\<lparr>heap := (heap s)(a := f (heap s a))\<rparr>"

definition upd_opt :: "avl_state \<Rightarrow> addr option \<Rightarrow> (avl_node \<Rightarrow> avl_node) \<Rightarrow> avl_state" where
  "upd_opt s p f = (case p of None \<Rightarrow> s | Some a \<Rightarrow> upd_node s a f)"

lemma setters_upd:
  "set_child s a i v = upd_node s a (avl_children_update (\<lambda>c. c(i := v)))"
  "set_parent s a p = upd_node s a (avl_parent_update (\<lambda>_. p))"
  "set_balance s a b = upd_node s a (avl_balance_update (\<lambda>_. b))"
  "set_parent_opt s q p = upd_opt s q (avl_parent_update (\<lambda>_. p))"
proof -
  have eq: "n\<lparr>avl_children := (avl_children n)(i := v)\<rparr> = avl_children_update (\<lambda>c. c(i := v)) n" for n
    by (cases n) simp
  show "set_child s a i v = upd_node s a (avl_children_update (\<lambda>c. c(i := v)))"
    by (simp only: set_child_def upd_node_def eq)
qed (auto simp: set_parent_def set_balance_def set_parent_opt_def upd_node_def
      upd_opt_def split: option.splits)

lemma upd_node_sel [simp]:
  "heap (upd_node s a f) x = (if x = a then f (heap s a) else heap s x)"
  "avl_root (upd_node s a f) = avl_root s"
  "rebalance_calls (upd_node s a f) = rebalance_calls s"
  by (auto simp: upd_node_def)

lemma upd_opt_sel [simp]:
  "heap (upd_opt s p f) x = (if p = Some x then f (heap s x) else heap s x)"
  "avl_root (upd_opt s p f) = avl_root s"
  "rebalance_calls (upd_opt s p f) = rebalance_calls s"
  "upd_opt s None f = s"
  "upd_opt s (Some a) f = upd_node s a f"
  by (auto simp: upd_opt_def split: option.splits)

lemma rep_cong_nodes:
  "(\<And>a. a \<in> nodes t \<Longrightarrow> avl_children (h' a) = avl_children (h a) \<and> avl_balance (h' a) = avl_balance (h a))
   \<Longrightarrow> (\<And>a. a \<in> nodes t \<Longrightarrow> root_ptr t \<noteq> Some a \<Longrightarrow> avl_parent (h' a) = avl_parent (h a))
   \<Longrightarrow> rep h' t = rep h t"
proof (induction t)
  case Leaf
  then show ?case by simp
next
  case (Node l a b r)
  show ?case
  proof (cases "a \<notin> nodes l \<and> a \<notin> nodes r")
    case True
    have l: "rep h' l = rep h l"
      by (rule Node.IH) (use Node.prems True in \<open>auto dest: root_ptr_nodes\<close>)
    have r: "rep h' r = rep h r"
      by (rule Node.IH) (use Node.prems True in \<open>auto dest: root_ptr_nodes\<close>)
    have pl: "par_ok h' (root_ptr l) (Some a) = par_ok h (root_ptr l) (Some a)"
      using Node.prems(2) True by (cases l) (auto simp: par_ok_def)
    have pr: "par_ok h' (root_ptr r) (Some a) = par_ok h (root_ptr r) (Some a)"
      using Node.prems(2) True by (cases r) (auto simp: par_ok_def)
    show ?thesis
      using Node.prems(1)[of a] l r pl pr by auto
  next
    case False
    then show ?thesis by auto
  qed
qed

lemma rep_upd_node [simp]:
  "a \<notin> nodes t \<Longrightarrow> rep (heap (upd_node s a f)) t = rep (heap s) t"
  by (rule rep_cong_nodes) auto

lemma rep_upd_root [simp]:
  "root_ptr t = Some a \<Longrightarrow> rep (heap (upd_node s a (avl_parent_update f))) t = rep (heap s) t"
  by (rule rep_cong_nodes) auto

lemma rep_upd_opt_root [simp]:
  "rep (heap (upd_opt s (root_ptr t) (avl_parent_update f))) t = rep (heap s) t"
  by (rule rep_cong_nodes) auto

lemma rep_upd_opt [simp]:
  "nodes u \<inter> nodes t = {} \<Longrightarrow> rep (heap (upd_opt s (root_ptr u) f)) t = rep (heap s) t"
  "nodes t \<inter> nodes u = {} \<Longrightarrow> rep (heap (upd_opt s (root_ptr u) f)) t = rep (heap s) t"
  by (rule rep_cong_nodes; auto dest: root_ptr_nodes)+

lemma rep_rec_upd [simp]:
  "rep (heap (s\<lparr>avl_root := x\<rparr>)) t = rep (heap s) t"
  "rep (heap (s\<lparr>rebalance_calls := n\<rparr>)) t = rep (heap s) t"
  by simp_all

lemma root_ptr_neq [simp]:
  "a \<notin> nodes t \<Longrightarrow> root_ptr t \<noteq> Some a"
  "a \<notin> nodes t \<Longrightarrow> Some a \<noteq> root_ptr t"
  by (cases t; auto)+

lemma root_ptr_disj [simp]:
  "nodes t \<inter> nodes u = {} \<Longrightarrow> root_ptr t = root_ptr u \<longleftrightarrow> t = Leaf \<and> u = Leaf"
  by (cases t; cases u) auto

lemma par_ok_simps [simp]:
  "par_ok h None par"
  "par_ok h (Some a) par = (avl_parent (h a) = par)"
  by (auto simp: par_ok_def)

lemma par_ok_upd_node [simp]:
  "p \<noteq> Some a \<Longrightarrow> par_ok (heap (upd_node s a f)) p par = par_ok (heap s) p par"
  by (auto simp: par_ok_def)

lemma par_ok_upd_opt_same [simp]:
  "par_ok (heap (upd_opt s p (avl_parent_update (\<lambda>_. v)))) p par = (p = None \<or> v = par)"
  by (cases p) (auto simp: par_ok_def)

lemma par_ok_upd_opt_other [simp]:
  "p = None \<or> p \<noteq> q \<Longrightarrow> par_ok (heap (upd_opt s q f)) p par = par_ok (heap s) p par"
  by (cases p; cases q) (auto simp: par_ok_def)

lemma par_ok_upd_opt_disj [simp]:
  "nodes t \<inter> nodes u = {} \<Longrightarrow>
     par_ok (heap (upd_opt s (root_ptr u) f)) (root_ptr t) par = par_ok (heap s) (root_ptr t) par"
  "nodes u \<inter> nodes t = {} \<Longrightarrow>
     par_ok (heap (upd_opt s (root_ptr u) f)) (root_ptr t) par = par_ok (heap s) (root_ptr t) par"
  by (cases t; cases u; auto)+

lemma par_ok_rec_upd [simp]:
  "par_ok (heap (s\<lparr>avl_root := x\<rparr>)) p par = par_ok (heap s) p par"
  "par_ok (heap (s\<lparr>rebalance_calls := n\<rparr>)) p par = par_ok (heap s) p par"
  by simp_all

lemma rep_ctx_cong_nodes:
  "(\<And>a. a \<in> ctx_nodes c \<Longrightarrow> h' a = h a) \<Longrightarrow> rep_ctx h' root c p = rep_ctx h root c p"
proof (induction c arbitrary: p)
  case Nil
  then show ?case by simp
next
  case (Cons f c)
  obtain d a b u where f: "f = (d, a, b, u)" by (cases f)
  have u: "rep h' u = rep h u"
    by (rule rep_cong_nodes) (use Cons.prems f in auto)
  have pu: "par_ok h' (root_ptr u) (Some a) = par_ok h (root_ptr u) (Some a)"
    using Cons.prems f by (cases u) auto
  have c: "rep_ctx h' root c (Some a) = rep_ctx h root c (Some a)"
    by (rule Cons.IH) (use Cons.prems f in auto)
  show ?case
    using Cons.prems[of a] u pu c by (simp add: f)
qed

lemma rep_ctx_upd_node [simp]:
  "a \<notin> ctx_nodes c \<Longrightarrow> rep_ctx (heap (upd_node s a f)) root c p = rep_ctx (heap s) root c p"
  by (rule rep_ctx_cong_nodes) auto

lemma rep_ctx_upd_opt [simp]:
  "nodes u \<inter> ctx_nodes c = {} \<Longrightarrow>
     rep_ctx (heap (upd_opt s (root_ptr u) f)) root c p = rep_ctx (heap s) root c p"
  by (rule rep_ctx_cong_nodes) (auto dest: root_ptr_nodes)

lemma rep_ctx_rec_upd [simp]:
  "rep_ctx (heap (s\<lparr>avl_root := x\<rparr>)) root c p = rep_ctx (heap s) root c p"
  "rep_ctx (heap (s\<lparr>rebalance_calls := n\<rparr>)) root c p = rep_ctx (heap s) root c p"
  by simp_all

subsection \<open>Writing the slot of the hole\<close>

lemma store_slot_sel [simp]:
  "rebalance_calls (store_slot s sl v) = rebalance_calls s"
  "x \<notin> ctx_nodes c \<Longrightarrow> heap (store_slot s (ctx_slot c) v) x = heap s x"
  by (cases sl; simp add: store_slot_def setters_upd)
     (cases c; auto simp add: store_slot_def setters_upd)

lemma rep_store_slot [simp]:
  assumes "nodes t \<inter> ctx_nodes c = {}"
  shows "rep (heap (store_slot s (ctx_slot c) v)) t = rep (heap s) t"
proof -
  have "heap (store_slot s (ctx_slot c) v) a = heap s a" if "a \<in> nodes t" for a
    using that assms by (intro store_slot_sel) blast
  then show ?thesis
    by (intro rep_cong_nodes) auto
qed

lemma par_ok_store_slot [simp]:
  "nodes t \<inter> ctx_nodes c = {} \<Longrightarrow>
     par_ok (heap (store_slot s (ctx_slot c) v)) (root_ptr t) par = par_ok (heap s) (root_ptr t) par"
  by (cases t) (auto simp: store_slot_sel)

lemma rep_ctx_store_slot:
  "rep_ctx (heap s) (avl_root s) c p \<Longrightarrow>
   rep_ctx (heap (store_slot s (ctx_slot c) p')) (avl_root (store_slot s (ctx_slot c) p')) c p'"
proof (cases c)
  case Nil
  then show ?thesis by (simp add: store_slot_def)
next
  case (Cons f c')
  obtain d a b u where f: "f = (d, a, b, u)" by (cases f)
  assume "rep_ctx (heap s) (avl_root s) c p"
  then show ?thesis
    by (auto simp: Cons f store_slot_def setters_upd)
qed

lemma which_child_zip:
  assumes "zip_rep s ((d, a, b, u) # c) t" "root_ptr t = Some r"
  shows "avl_which_child s r = idx d"
proof -
  have r: "r \<in> nodes t" "r \<notin> nodes u"
    using assms by (auto simp: zip_rep_def dest: root_ptr_nodes)
  have "avl_parent (heap s r) = Some a" "avl_children (heap s a) (idx d) = Some r"
    "avl_children (heap s a) (idx (\<not> d)) = root_ptr u"
    using assms by (auto simp: zip_rep_def)
  with r show ?thesis
    by (cases d) (auto simp: avl_which_child_def dest: root_ptr_nodes)
qed

lemma slot_of_zip:
  assumes "zip_rep s c t" "root_ptr t = Some r"
  shows "slot_of s r = ctx_slot c"
proof (cases c)
  case Nil
  then show ?thesis using assms by (simp add: slot_of_def zip_rep_def)
next
  case (Cons f c')
  obtain d a b u where f: "f = (d, a, b, u)" by (cases f)
  show ?thesis
    using assms which_child_zip[of s d a b u c' t r]
    by (simp add: slot_of_def zip_rep_def Cons f)
qed

lemma zip_repD:
  "zip_rep s c t \<Longrightarrow> rep_ctx (heap s) (avl_root s) c (root_ptr t)"
  "zip_rep s c t \<Longrightarrow> rep (heap s) t"
  "zip_rep s c t \<Longrightarrow> par_ok (heap s) (root_ptr t) (ctx_par c)"
  "zip_rep s c t \<Longrightarrow> nodes t \<inter> ctx_nodes c = {}"
  by (auto simp: zip_rep_def)

lemma rebalance_case1:
  assumes z: "zip_rep s c (mk d r br (mk d sa br X B) Y)" and d: "avl_balance2idx br = idx d"
  shows "\<exists>s'. avl_rebalance s r = Some (1, s') \<and> zip_rep s' c (mk d sa 0 X (mk d r 0 B Y)) \<and>
           rebalance_calls s' = Suc (rebalance_calls s) \<and>
           (\<forall>x. x \<notin> nodes (mk d r br (mk d sa br X B) Y) \<and> x \<notin> ctx_nodes c \<longrightarrow> heap s' x = heap s x)"
proof -
  let ?s0 = "s\<lparr>rebalance_calls := Suc (rebalance_calls s)\<rparr>"
  have z0: "zip_rep ?s0 c (mk d r br (mk d sa br X B) Y)"
    using z by (simp add: zip_rep_def)
  have sl: "slot_of ?s0 r = ctx_slot c"
    using slot_of_zip[OF z0] by simp
  note ctx = rep_ctx_store_slot[OF zip_repD(1)[OF z0], of "Some sa"]
  show ?thesis
    using z d ctx
    by (simp add: avl_rebalance_def sl Let_def zip_rep_def setters_upd Int_Un_distrib2 Int_Un_distrib)
qed

lemma rebalance_case3:
  assumes z: "zip_rep s c (mk d r br (mk d sa 0 X B) Y)" and d: "avl_balance2idx br = idx d"
    and br: "br \<noteq> 0"
  shows "\<exists>s'. avl_rebalance s r = Some (0, s') \<and> zip_rep s' c (mk d sa (- br) X (mk d r br B Y)) \<and>
           rebalance_calls s' = Suc (rebalance_calls s) \<and>
           (\<forall>x. x \<notin> nodes (mk d r br (mk d sa 0 X B) Y) \<and> x \<notin> ctx_nodes c \<longrightarrow> heap s' x = heap s x)"
proof -
  let ?s0 = "s\<lparr>rebalance_calls := Suc (rebalance_calls s)\<rparr>"
  have z0: "zip_rep ?s0 c (mk d r br (mk d sa 0 X B) Y)"
    using z by (simp add: zip_rep_def)
  have sl: "slot_of ?s0 r = ctx_slot c"
    using slot_of_zip[OF z0] by simp
  note ctx = rep_ctx_store_slot[OF zip_repD(1)[OF z0], of "Some sa"]
  show ?thesis
    using z d br ctx
    by (simp add: avl_rebalance_def sl Let_def zip_rep_def setters_upd Int_Un_distrib2 Int_Un_distrib)
qed

lemma rebalance_case2:
  assumes z: "zip_rep s c (mk d r br (mk d sa bs X (mk d q bq C B)) Y)"
    and d: "avl_balance2idx br = idx d" and bs: "bs \<noteq> br" "bs \<noteq> 0"
  shows "\<exists>s'. avl_rebalance s r = Some (1, s') \<and>
           zip_rep s' c (mk d q 0 (mk d sa (if bq = bs then - bq else 0) X C)
                                   (mk d r (if bq = bs then 0 else - bq) B Y)) \<and>
           rebalance_calls s' = Suc (rebalance_calls s) \<and>
           (\<forall>x. x \<notin> nodes (mk d r br (mk d sa bs X (mk d q bq C B)) Y) \<and> x \<notin> ctx_nodes c
                \<longrightarrow> heap s' x = heap s x)"
proof -
  let ?s0 = "s\<lparr>rebalance_calls := Suc (rebalance_calls s)\<rparr>"
  have z0: "zip_rep ?s0 c (mk d r br (mk d sa bs X (mk d q bq C B)) Y)"
    using z by (simp add: zip_rep_def)
  have sl: "slot_of ?s0 r = ctx_slot c"
    using slot_of_zip[OF z0] by simp
  note ctx = rep_ctx_store_slot[OF zip_repD(1)[OF z0], of "Some q"]
  show ?thesis
    using z d bs ctx
    by (simp add: avl_rebalance_def sl Let_def zip_rep_def setters_upd Int_Un_distrib2 Int_Un_distrib)
qed

section \<open>The algorithms on trees\<close>

fun child :: "bool \<Rightarrow> tree \<Rightarrow> tree" where
  "child d Leaf = Leaf"
| "child d (Node l a b r) = (if d then r else l)"

fun root_bal :: "tree \<Rightarrow> int" where
  "root_bal Leaf = 0"
| "root_bal (Node l a b r) = b"

text \<open>The rotation engine on the subtree it is invoked on, with the flag it returns.\<close>

definition rebal :: "tree \<Rightarrow> (int \<times> tree) option" where
  "rebal R =
     (case R of
        Leaf \<Rightarrow> None
      | Node _ r br _ \<Rightarrow>
          (let d = (0 \<le> br); S = child d R; Y = child (\<not> d) R in
           case S of
             Leaf \<Rightarrow> None
           | Node _ s bs _ \<Rightarrow>
               (let X = child d S; B = child (\<not> d) S in
                if br = bs then Some (1, mk d s 0 X (mk d r 0 B Y))
                else if bs \<noteq> 0 then
                  (case B of
                     Leaf \<Rightarrow> None
                   | Node _ q bq _ \<Rightarrow>
                       Some (1, mk d q 0
                         (mk d s (if bq = bs then - bq else 0) X (child d B))
                         (mk d r (if bq = bs then 0 else - bq) (child (\<not> d) B) Y)))
                else Some (0, mk d s (- br) X (mk d r br B Y)))))"

fun ins_up :: "frame list \<Rightarrow> tree \<Rightarrow> tree option" where
  "ins_up [] t = Some t"
| "ins_up ((d, a, b, u) # c) t =
     (if avl_abs_balance (b + sg d) = 0 then Some (plug c (mk d a (b + sg d) t u))
      else if avl_abs_balance (b + sg d) = 1 then ins_up c (mk d a (b + sg d) t u)
      else map_option (\<lambda>(f, t'). plug c t') (rebal (mk d a b t u)))"

fun del_up :: "frame list \<Rightarrow> tree \<Rightarrow> tree option" where
  "del_up [] t = Some t"
| "del_up ((d, a, b, u) # c) t =
     (if avl_abs_balance (b - sg d) = 0 then del_up c (mk d a (b - sg d) t u)
      else if avl_abs_balance (b - sg d) = 1 then Some (plug c (mk d a (b - sg d) t u))
      else (case rebal (mk d a b t u) of
              None \<Rightarrow> None
            | Some (f, t') \<Rightarrow> if f = 0 then Some (plug c t') else del_up c t'))"

fun bal_ctx :: "frame list \<Rightarrow> int \<Rightarrow> bool" where
  "bal_ctx [] h = True"
| "bal_ctx ((d, a, b, u) # c) h =
     (b = sg d * (h - ht u) \<and> \<bar>b\<bar> \<le> 1 \<and> balanced u \<and> bal_ctx c (1 + max h (ht u)))"

lemma child_mk [simp]: "child e (mk d a b t u) = (if e = d then t else u)"
  by (auto simp: mk_def)

lemma root_bal_mk [simp]: "root_bal (mk d a b t u) = b"
  by (auto simp: mk_def)

lemma ht_nonneg: "0 \<le> ht t"
  by (induction t) auto

lemma ht_0 [simp]: "ht t = 0 \<longleftrightarrow> t = Leaf" "ht t \<le> 0 \<longleftrightarrow> t = Leaf"
  using ht_nonneg[of "child True t"] ht_nonneg[of "child False t"] by (cases t; simp)+

lemma idx_balance: "avl_balance2idx b = idx (0 \<le> b)"
  by (auto simp: avl_balance2idx_def idx_def)

lemma mk_view: "t \<noteq> Leaf \<Longrightarrow> \<exists>a b x y. t = mk d a b x y"
  using tree_cases_mk[of t d] by blast

lemma rebal_mk:
  "(0 \<le> br) = d \<Longrightarrow> rebal (mk d r br (mk d s br X B) Y) = Some (1, mk d s 0 X (mk d r 0 B Y))"
  "(0 \<le> br) = d \<Longrightarrow> bs \<noteq> br \<Longrightarrow> bs \<noteq> 0 \<Longrightarrow>
     rebal (mk d r br (mk d s bs X (mk d q bq C B)) Y) =
       Some (1, mk d q 0 (mk d s (if bq = bs then - bq else 0) X C)
                         (mk d r (if bq = bs then 0 else - bq) B Y))"
  "(0 \<le> br) = d \<Longrightarrow> bs \<noteq> br \<Longrightarrow> bs \<noteq> 0 \<Longrightarrow>
     rebal (mk d r br (mk d s bs X Leaf) Y) = None"
  "(0 \<le> br) = d \<Longrightarrow> br \<noteq> 0 \<Longrightarrow>
     rebal (mk d r br (mk d s 0 X B) Y) = Some (0, mk d s (- br) X (mk d r br B Y))"
  "(0 \<le> br) = d \<Longrightarrow> rebal (mk d r br Leaf Y) = None"
  by (auto simp: rebal_def mk_def)

lemma balanced_plug: "balanced (plug c t) = (balanced t \<and> bal_ctx c (ht t))"
proof (induction c arbitrary: t)
  case Nil
  then show ?case by simp
next
  case (Cons f c)
  obtain d a b u where f: "f = (d, a, b, u)" by (cases f)
  show ?case unfolding f by (simp add: Cons.IH) blast
qed

lemma abs_balance [simp]: "avl_abs_balance b = \<bar>b\<bar>"
  by (auto simp: avl_abs_balance_def)

text \<open>The rotation restores the balance of a subtree that leans by two.\<close>

lemma rebal_balanced:
  assumes "balanced S" "balanced Y" "ht S = ht Y + 2"
  shows "\<exists>f t'. rebal (mk d r (sg d) S Y) = Some (f, t') \<and> balanced t' \<and>
           ht t' = (if f = 0 then ht S + 1 else ht S) \<and> (f = 0 \<longleftrightarrow> root_bal S = 0) \<and>
           (f \<noteq> 0 \<longrightarrow> root_bal t' = 0)"
proof -
  have d: "(0 \<le> sg d) = d" by (cases d) auto
  have "S \<noteq> Leaf" using assms(3) ht_nonneg[of Y] by (cases S) auto
  then obtain sa bs X B where S: "S = mk d sa bs X B" using mk_view by blast
  have "\<bar>bs\<bar> \<le> 1" using assms(1) S by auto
  then have "bs = 1 \<or> bs = 0 \<or> bs = - 1" by arith
  then consider "bs = sg d" | "bs = 0" | "bs = - sg d"
    by (cases d) auto
  then show ?thesis
  proof cases
    case 1
    then show ?thesis using assms S d by (cases d) (auto simp: rebal_mk max_def)
  next
    case 2
    then show ?thesis using assms S d by (cases d) (auto simp: rebal_mk max_def)
  next
    case 3
    then have "B \<noteq> Leaf" using assms S ht_nonneg[of X] by (cases d) auto
    then obtain q bq C B' where B: "B = mk d q bq C B'" using mk_view by blast
    have ne: "bs \<noteq> sg d" "bs \<noteq> 0" using 3 by (cases d; simp)+
    show ?thesis
      using assms S B 3 rebal_mk(2)[OF d ne, of r sa X q bq C B' Y]
      by (cases d) (auto simp: max_def split: if_splits)
  qed
qed

lemma rebal_trav: "rebal t = Some (f, t') \<Longrightarrow> trav e t' = trav e t"
  by (auto simp: rebal_def Let_def trav_def mk_def split: tree.splits if_splits)

lemma mk_flip: "mk d a b t u = mk (\<not> d) a b u t"
  by (simp add: mk_def)

lemma trav_plug_cong: "trav e t1 = trav e t2 \<Longrightarrow> trav e (plug c t1) = trav e (plug c t2)"
proof (induction c arbitrary: t1 t2)
  case Nil
  then show ?case by simp
next
  case (Cons f c)
  obtain d a b u where f: "f = (d, a, b, u)" by (cases f)
  show ?case unfolding f plug.simps
    by (rule Cons.IH) (use Cons.prems in auto)
qed

lemma ins_up_trav: "ins_up c t = Some t' \<Longrightarrow> trav e t' = trav e (plug c t)"
proof (induction c arbitrary: t)
  case Nil
  then show ?case by simp
next
  case (Cons f c)
  obtain d a b u where f: "f = (d, a, b, u)" by (cases f)
  have 1: "trav e (plug c (mk d a b' t u)) = trav e (plug c (mk d a b t u))" for b'
    by (rule trav_plug_cong) simp
  have 2: "trav e (plug c t'') = trav e (plug c (mk d a b t u))"
    if "rebal (mk d a b t u) = Some (g, t'')" for g t''
    by (rule trav_plug_cong) (rule rebal_trav[OF that])
  show ?case
    using Cons.prems Cons.IH[of "mk d a (b + sg d) t u"] 1 2
    by (auto simp: f split: if_splits)
qed

lemma del_up_trav: "del_up c t = Some t' \<Longrightarrow> trav e t' = trav e (plug c t)"
proof (induction c arbitrary: t)
  case Nil
  then show ?case by simp
next
  case (Cons f c)
  obtain d a b u where f: "f = (d, a, b, u)" by (cases f)
  have 1: "trav e (plug c (mk d a b' t u)) = trav e (plug c (mk d a b t u))" for b'
    by (rule trav_plug_cong) simp
  have 2: "trav e (plug c t'') = trav e (plug c (mk d a b t u))"
    if "rebal (mk d a b t u) = Some (g, t'')" for g t''
    by (rule trav_plug_cong) (rule rebal_trav[OF that])
  show ?case
    using Cons.prems Cons.IH[of "mk d a (b - sg d) t u"] Cons.IH 1 2
    by (auto simp: f split: if_splits option.splits)
qed

lemma ins_up_balanced:
  assumes "bal_ctx c h" "balanced t" "ht t = h + 1" "root_bal t \<noteq> 0 \<or> h = 0"
  shows "\<exists>t'. ins_up c t = Some t' \<and> balanced t'"
  using assms
proof (induction c arbitrary: t h)
  case Nil
  then show ?case by simp
next
  case (Cons f c)
  obtain d a b u where f: "f = (d, a, b, u)" by (cases f)
  from Cons.prems(1) have b: "b = sg d * (h - ht u)" "\<bar>b\<bar> \<le> 1" and u: "balanced u"
    and c: "bal_ctx c (1 + max h (ht u))"
    by (auto simp: f)
  from b(2) have "b = - sg d \<or> b = 0 \<or> b = sg d" by (cases d) auto
  then consider "b = - sg d" | "b = 0" | "b = sg d" by blast
  then show ?case
  proof cases
    case 1
    then have hu: "ht u = h + 1" using b(1) by (cases d) auto
    have "balanced (plug c (mk d a 0 t u))"
      using Cons.prems u c hu by (simp add: balanced_plug max_def add.commute)
    then show ?thesis using 1 by (simp add: f)
  next
    case 2
    then have hu: "ht u = h" using b(1) by (cases d) auto
    have "\<exists>t'. ins_up c (mk d a (sg d) t u) = Some t' \<and> balanced t'"
      by (rule Cons.IH[of "h + 1"]) (use Cons.prems u c hu in \<open>auto simp: max_def add.commute\<close>)
    then show ?thesis using 2 by (simp add: f)
  next
    case 3
    then have hu: "ht u = h - 1" using b(1) by (cases d) auto
    then have h0: "h \<noteq> 0" using ht_nonneg[of u] by auto
    obtain g t' where r: "rebal (mk d a (sg d) t u) = Some (g, t')" "balanced t'"
      "ht t' = (if g = 0 then ht t + 1 else ht t)" "(g = 0 \<longleftrightarrow> root_bal t = 0)"
      using rebal_balanced[of t u d a] Cons.prems u hu by auto
    have "g \<noteq> 0" using r(4) Cons.prems(4) h0 by simp
    then have "balanced (plug c t')"
      using r c hu Cons.prems by (simp add: balanced_plug max_def add.commute)
    then show ?thesis using 3 r(1) by (cases d) (simp_all add: f)
  qed
qed

lemma del_up_balanced:
  assumes "bal_ctx c h" "balanced t" "ht t = h - 1"
  shows "\<exists>t'. del_up c t = Some t' \<and> balanced t'"
  using assms
proof (induction c arbitrary: t h)
  case Nil
  then show ?case by simp
next
  case (Cons f c)
  obtain d a b u where f: "f = (d, a, b, u)" by (cases f)
  from Cons.prems(1) have b: "b = sg d * (h - ht u)" "\<bar>b\<bar> \<le> 1" and u: "balanced u"
    and c: "bal_ctx c (1 + max h (ht u))"
    by (auto simp: f)
  from b(2) have "b = - sg d \<or> b = 0 \<or> b = sg d" by (cases d) auto
  then consider "b = sg d" | "b = 0" | "b = - sg d" by blast
  then show ?case
  proof cases
    case 1
    then have hu: "ht u = h - 1" using b(1) by (cases d) auto
    have "\<exists>t'. del_up c (mk d a 0 t u) = Some t' \<and> balanced t'"
      by (rule Cons.IH[of "h + 1"]) (use Cons.prems u c hu in \<open>auto simp: max_def add.commute\<close>)
    then show ?thesis using 1 by (simp add: f)
  next
    case 2
    then have hu: "ht u = h" using b(1) by (cases d) auto
    have "balanced (plug c (mk d a (- sg d) t u))"
      using Cons.prems u c hu by (simp add: balanced_plug max_def add.commute)
    then show ?thesis using 2 by (simp add: f)
  next
    case 3
    then have hu: "ht u = h + 1" using b(1) by (cases d) auto
    obtain g t' where r: "rebal (mk (\<not> d) a (sg (\<not> d)) u t) = Some (g, t')" "balanced t'"
      "ht t' = (if g = 0 then ht u + 1 else ht u)"
      using rebal_balanced[of u t "\<not> d" a] Cons.prems u hu by auto
    have r': "rebal (mk d a b t u) = Some (g, t')"
      using r(1) 3 mk_flip[of d a b t u] by simp
    show ?thesis
    proof (cases "g = 0")
      case True
      then have "balanced (plug c t')"
        using r c hu Cons.prems by (simp add: balanced_plug max_def add.commute)
      then show ?thesis using 3 r' True by (cases d) (simp_all add: f)
    next
      case False
      have "\<exists>t''. del_up c t' = Some t'' \<and> balanced t''"
        by (rule Cons.IH[of "h + 2"]) (use r c hu False in \<open>auto simp: max_def add.commute\<close>)
      then show ?thesis using 3 r' False by (cases d) (simp_all add: f)
    qed
  qed
qed

definition same_outside :: "avl_state \<Rightarrow> avl_state \<Rightarrow> addr set \<Rightarrow> bool" where
  "same_outside s s' A = (\<forall>x. x \<notin> A \<longrightarrow> heap s' x = heap s x)"

lemma same_outside_refl [simp]: "same_outside s s A"
  by (simp add: same_outside_def)

lemma same_outside_trans:
  "same_outside s s' A \<Longrightarrow> same_outside s' s'' B \<Longrightarrow> A \<subseteq> C \<Longrightarrow> B \<subseteq> C \<Longrightarrow> same_outside s s'' C"
  unfolding same_outside_def by (metis subsetD)

lemma zip_rep_up: "zip_rep s ((d, a, b, u) # c) t = zip_rep s c (mk d a b t u)"
  by (auto simp: zip_rep_def Int_Un_distrib Int_Un_distrib2)

lemma zip_rep_plug: "zip_rep s c t = heap_tree s (plug c t)"
proof (induction c arbitrary: t)
  case Nil
  then show ?case by (simp add: heap_tree_def)
next
  case (Cons f c)
  obtain d a b u where f: "f = (d, a, b, u)" by (cases f)
  show ?case by (simp add: f zip_rep_up Cons.IH)
qed

lemma nodes_plug [simp]: "nodes (plug c t) = nodes t \<union> ctx_nodes c"
  by (induction c arbitrary: t) auto

lemma rebal_nodes: "rebal t = Some (f, t') \<Longrightarrow> nodes t' = nodes t"
  using rebal_trav[of t f t' True] set_trav[of True t] set_trav[of True t'] by simp

lemma rebalance_sim:
  assumes z: "zip_rep s c t" and r: "rebal t = Some (f, t')" and p: "root_ptr t = Some r"
  shows "\<exists>s'. avl_rebalance s r = Some (f, s') \<and> zip_rep s' c t' \<and>
           rebalance_calls s' = Suc (rebalance_calls s) \<and>
           same_outside s s' (nodes t \<union> ctx_nodes c)"
proof -
  obtain l br rt where t: "t = Node l r br rt"
    using p by (cases t) auto
  define d where "d = (0 \<le> br)"
  obtain S Y where t': "t = mk d r br S Y"
    using Node_is_mk[of l r br rt d] t by auto
  have d: "avl_balance2idx br = idx d" "(0 \<le> br) = d"
    by (simp_all add: idx_balance d_def)
  have "S \<noteq> Leaf" using r d by (auto simp: t' rebal_mk)
  then obtain sa bs X B where S: "S = mk d sa bs X B"
    using mk_view by blast
  show ?thesis
  proof (cases "bs = br")
    case True
    show ?thesis
      using rebalance_case1[of s c d r br sa X B Y] z r d True
      by (auto simp: t' S rebal_mk same_outside_def)
  next
    case False
    show ?thesis
    proof (cases "bs = 0")
      case True
      then have "br \<noteq> 0" using False by simp
      then show ?thesis
        using rebalance_case3[of s c d r br sa X B Y] z r d True
        by (auto simp: t' S rebal_mk same_outside_def)
    next
      case bs: False
      have "B \<noteq> Leaf" using r d False bs by (auto simp: t' S rebal_mk)
      then obtain q bq C B' where B: "B = mk d q bq C B'"
        using mk_view by blast
      show ?thesis
        using rebalance_case2[of s c d r br sa bs X q bq C B' Y] z r d False bs
          rebal_mk(2)[OF d(2) False bs, of r sa X q bq C B' Y]
        by (simp add: t' S B same_outside_def)
    qed
  qed
qed

lemma zip_rep_set_balance:
  "zip_rep s ((d, a, b, u) # c) t \<Longrightarrow> zip_rep (set_balance s a b') ((d, a, b', u) # c) t"
  by (auto simp: zip_rep_def setters_upd Int_Un_distrib)

lemma zip_rep_frame_facts:
  assumes "zip_rep s ((d, a, b, u) # c) t"
  shows "avl_balance (heap s a) = b" "avl_parent (heap s a) = ctx_par c"
  using assms by (auto simp: zip_rep_def)

lemma insert_retrace_sim:
  assumes "zip_rep s c t" "root_ptr t = Some n" "ins_up c t = Some t'"
  shows "\<exists>s'. avl_insert_retrace s n (ctx_par c) = Some s' \<and> heap_tree s' t' \<and>
           same_outside s s' (nodes t \<union> ctx_nodes c)"
  using assms
proof (induction c arbitrary: s t n)
  case Nil
  then show ?case
    by (subst avl_insert_retrace.simps) (simp add: heap_tree_def)
next
  case (Cons f c)
  obtain d a b u where f: "f = (d, a, b, u)" by (cases f)
  note z = Cons.prems(1)[unfolded f]
  have w: "avl_which_child s n = idx d"
    using which_child_zip[OF z Cons.prems(2)] .
  note ff = zip_rep_frame_facts[OF z]
  let ?nb = "b + sg d"
  let ?s1 = "set_balance s a ?nb"
  have z1: "zip_rep ?s1 c (mk d a ?nb t u)"
    using zip_rep_set_balance[OF z] by (simp add: zip_rep_up)
  have so1: "same_outside s ?s1 (nodes t \<union> ctx_nodes (f # c))"
    by (auto simp: same_outside_def setters_upd f)
  consider "\<bar>?nb\<bar> = 0" | "\<bar>?nb\<bar> = 1" | "\<bar>?nb\<bar> \<noteq> 0" "\<bar>?nb\<bar> \<noteq> 1"
    by blast
  then show ?case
  proof cases
    case 1
    then have "t' = plug c (mk d a ?nb t u)"
      using Cons.prems(3) by (simp add: f)
    then show ?thesis
      using 1 z1 so1 w ff
      by (subst avl_insert_retrace.simps) (simp add: f zip_rep_plug)
  next
    case 2
    then have "ins_up c (mk d a ?nb t u) = Some t'"
      using Cons.prems(3) by (simp add: f)
    from Cons.IH[OF z1 _ this, of a]
    obtain s' where s': "avl_insert_retrace ?s1 a (ctx_par c) = Some s'" "heap_tree s' t'"
      "same_outside ?s1 s' (nodes (mk d a ?nb t u) \<union> ctx_nodes c)"
      by auto
    have "same_outside s s' (nodes t \<union> ctx_nodes (f # c))"
      using so1 s'(3) by (rule same_outside_trans) (auto simp: f)
    moreover have "avl_parent (heap ?s1 a) = ctx_par c"
      using ff by (simp add: setters_upd)
    ultimately show ?thesis
      using 2 s' w ff
      by (subst avl_insert_retrace.simps) (simp add: f)
  next
    case 3
    then obtain g t'' where r: "rebal (mk d a b t u) = Some (g, t'')" "t' = plug c t''"
      using Cons.prems(3) by (auto simp: f)
    from rebalance_sim[OF z[unfolded zip_rep_up] r(1)]
    obtain s' where s': "avl_rebalance s a = Some (g, s')" "zip_rep s' c t''"
      "same_outside s s' (nodes (mk d a b t u) \<union> ctx_nodes c)"
      by auto
    have "same_outside s s' (nodes t \<union> ctx_nodes (f # c))"
      using s'(3) by (auto simp: same_outside_def f)
    then show ?thesis
      using 3 s' w ff r
      by (subst avl_insert_retrace.simps) (simp add: f zip_rep_plug)
  qed
qed

fun arrives :: "int \<Rightarrow> frame list \<Rightarrow> bool" where
  "arrives wc [] = True"
| "arrives wc ((d, a, b, u) # c) = (wc = idx d)"

lemma which_child_arrives:
  assumes "zip_rep s c t" "root_ptr t = Some r"
  shows "arrives (avl_which_child s r) c"
proof (cases c)
  case Nil
  then show ?thesis by simp
next
  case (Cons f c')
  obtain d a b u where f: "f = (d, a, b, u)" by (cases f)
  show ?thesis
    using which_child_zip[OF assms(1)[unfolded Cons f] assms(2)] by (simp add: Cons f)
qed

lemma remove_retrace_sim:
  assumes "zip_rep s c t" "del_up c t = Some t'" "arrives wc c"
  shows "\<exists>s'. avl_remove_retrace s (ctx_par c) wc = Some s' \<and> heap_tree s' t' \<and>
           same_outside s s' (nodes t \<union> ctx_nodes c)"
  using assms
proof (induction c arbitrary: s t wc)
  case Nil
  then show ?case
    by (subst avl_remove_retrace.simps) (simp add: heap_tree_def)
next
  case (Cons f c)
  obtain d a b u where f: "f = (d, a, b, u)" by (cases f)
  note z = Cons.prems(1)[unfolded f]
  have wc: "wc = idx d"
    using Cons.prems(3) by (simp add: f)
  note ff = zip_rep_frame_facts[OF z]
  have w: "arrives (avl_which_child s a) c"
    by (rule which_child_arrives[OF z[unfolded zip_rep_up]]) simp
  let ?nb = "b - sg d"
  let ?s1 = "set_balance s a ?nb"
  have z1: "zip_rep ?s1 c (mk d a ?nb t u)"
    using zip_rep_set_balance[OF z] by (simp add: zip_rep_up)
  have so1: "same_outside s ?s1 (nodes t \<union> ctx_nodes (f # c))"
    by (auto simp: same_outside_def setters_upd f)
  consider "\<bar>?nb\<bar> = 0" | "\<bar>?nb\<bar> = 1" | "\<bar>?nb\<bar> \<noteq> 0" "\<bar>?nb\<bar> \<noteq> 1"
    by blast
  then show ?case
  proof cases
    case 1
    then have "del_up c (mk d a ?nb t u) = Some t'"
      using Cons.prems(2) by (simp add: f)
    from Cons.IH[OF z1 this w]
    obtain s' where s': "avl_remove_retrace ?s1 (ctx_par c) (avl_which_child s a) = Some s'"
      "heap_tree s' t'" "same_outside ?s1 s' (nodes (mk d a ?nb t u) \<union> ctx_nodes c)"
      by auto
    have "same_outside s s' (nodes t \<union> ctx_nodes (f # c))"
      using so1 s'(3) by (rule same_outside_trans) (auto simp: f)
    then show ?thesis
      using 1 s' ff wc
      by (subst avl_remove_retrace.simps) (simp add: f)
  next
    case 2
    then have "t' = plug c (mk d a ?nb t u)"
      using Cons.prems(2) by (simp add: f)
    then show ?thesis
      using 2 z1 so1 ff wc
      by (subst avl_remove_retrace.simps) (simp add: f zip_rep_plug)
  next
    case 3
    then obtain g t'' where r: "rebal (mk d a b t u) = Some (g, t'')"
      and g: "if g = 0 then t' = plug c t'' else del_up c t'' = Some t'"
      using Cons.prems(2) by (auto simp: f split: option.splits if_splits)
    from rebalance_sim[OF z[unfolded zip_rep_up] r]
    obtain s' where s': "avl_rebalance s a = Some (g, s')" "zip_rep s' c t''"
      "same_outside s s' (nodes (mk d a b t u) \<union> ctx_nodes c)"
      by auto
    have so: "same_outside s s' (nodes t \<union> ctx_nodes (f # c))"
      using s'(3) by (auto simp: same_outside_def f)
    show ?thesis
    proof (cases "g = 0")
      case True
      then show ?thesis
        using 3 s' ff wc g so
        by (subst avl_remove_retrace.simps) (simp add: f zip_rep_plug)
    next
      case False
      then have "del_up c t'' = Some t'" using g by simp
      from Cons.IH[OF s'(2) this w]
      obtain s'' where s'': "avl_remove_retrace s' (ctx_par c) (avl_which_child s a) = Some s''"
        "heap_tree s'' t'" "same_outside s' s'' (nodes t'' \<union> ctx_nodes c)"
        by auto
      have "same_outside s s'' (nodes t \<union> ctx_nodes (f # c))"
        using so s''(3) by (rule same_outside_trans) (auto simp: f rebal_nodes[OF r])
      then show ?thesis
        using 3 s' s'' ff wc False
        by (subst avl_remove_retrace.simps) (simp add: f)
    qed
  qed
qed

section \<open>The comparator and the ordering invariant\<close>

text \<open>
  The contract of the caller's comparator: the sign of the result is a strict order
  on the nodes, and nodes that compare equal compare alike with every other node.
\<close>

definition cmp_ok :: "avl_cmp_t \<Rightarrow> bool" where
  "cmp_ok cmpfunc =
     ((\<forall>a b. cmpfunc a b < 0 \<longleftrightarrow> 0 < cmpfunc b a) \<and>
      (\<forall>a b c. cmpfunc a b < 0 \<and> cmpfunc b c < 0 \<longrightarrow> cmpfunc a c < 0) \<and>
      (\<forall>a b c. cmpfunc a b = 0 \<and> cmpfunc b c < 0 \<longrightarrow> cmpfunc a c < 0) \<and>
      (\<forall>a b c. cmpfunc a b < 0 \<and> cmpfunc b c = 0 \<longrightarrow> cmpfunc a c < 0))"

definition lt :: "avl_cmp_t \<Rightarrow> addr \<Rightarrow> addr \<Rightarrow> bool" where
  "lt cmpfunc a b = (cmpfunc a b < 0)"

definition bst :: "avl_cmp_t \<Rightarrow> tree \<Rightarrow> bool" where
  "bst cmpfunc t = sorted_wrt (lt cmpfunc) (inorder t)"

text \<open>The in-order sequence around the hole of a context, in either direction.\<close>

fun pre :: "bool \<Rightarrow> frame list \<Rightarrow> addr list" where
  "pre e [] = []"
| "pre e ((d, a, b, u) # c) = (if d = e then pre e c @ trav e u @ [a] else pre e c)"

fun post :: "bool \<Rightarrow> frame list \<Rightarrow> addr list" where
  "post e [] = []"
| "post e ((d, a, b, u) # c) = (if d = e then post e c else a # trav e u @ post e c)"

text \<open>The descent of an insertion: the context of the place where it ends.\<close>

fun path_to :: "avl_cmp_t \<Rightarrow> addr \<Rightarrow> tree \<Rightarrow> frame list \<Rightarrow> frame list \<times> tree" where
  "path_to cmpfunc n Leaf c = (c, Leaf)"
| "path_to cmpfunc n (Node l a b r) c =
     (if cmpfunc n a = 0 then (c, Node l a b r)
      else if cmpfunc n a < 0 then path_to cmpfunc n l ((False, a, b, r) # c)
      else path_to cmpfunc n r ((True, a, b, l) # c))"

lemma trav_plug: "trav e (plug c t) = pre e c @ trav e t @ post e c"
proof (induction c arbitrary: t)
  case Nil
  then show ?case by simp
next
  case (Cons f c)
  obtain d a b u where f: "f = (d, a, b, u)" by (cases f)
  show ?case by (simp add: f Cons.IH)
qed

lemma trav_True [simp]: "trav True t = inorder t"
  by (simp add: trav_def)

lemma cmp_okD:
  assumes "cmp_ok cmpfunc"
  shows "lt cmpfunc a b \<Longrightarrow> lt cmpfunc b c \<Longrightarrow> lt cmpfunc a c"
    and "0 < cmpfunc a b \<longleftrightarrow> lt cmpfunc b a"
    and "cmpfunc a b = 0 \<Longrightarrow> \<not> lt cmpfunc a b \<and> \<not> lt cmpfunc b a"
    and "cmpfunc a b = 0 \<Longrightarrow> lt cmpfunc b c \<Longrightarrow> lt cmpfunc a c"
    and "lt cmpfunc a b \<Longrightarrow> cmpfunc b c = 0 \<Longrightarrow> lt cmpfunc a c"
    and "cmpfunc a a = 0"
proof -
  show "lt cmpfunc a b \<Longrightarrow> lt cmpfunc b c \<Longrightarrow> lt cmpfunc a c"
    using assms unfolding cmp_ok_def lt_def by blast
  show 2: "0 < cmpfunc a b \<longleftrightarrow> lt cmpfunc b a" for a b
    using assms unfolding cmp_ok_def lt_def by blast
  show "cmpfunc a b = 0 \<Longrightarrow> \<not> lt cmpfunc a b \<and> \<not> lt cmpfunc b a"
    using 2[of a b] by (auto simp: lt_def)
  show "cmpfunc a b = 0 \<Longrightarrow> lt cmpfunc b c \<Longrightarrow> lt cmpfunc a c"
    using assms unfolding cmp_ok_def lt_def by blast
  show "lt cmpfunc a b \<Longrightarrow> cmpfunc b c = 0 \<Longrightarrow> lt cmpfunc a c"
    using assms unfolding cmp_ok_def lt_def by blast
  show "cmpfunc a a = 0"
    using 2[of a a] by (auto simp: lt_def)
qed

lemma path_to_props:
  assumes ok: "cmp_ok cmpfunc"
    and "path_to cmpfunc n t c = (c', t')"
    and "sorted_wrt (lt cmpfunc) (pre True c @ inorder t @ post True c)"
    and "\<forall>x\<in>set (pre True c). lt cmpfunc x n" "\<forall>x\<in>set (post True c). lt cmpfunc n x"
  shows "plug c' t' = plug c t \<and> (\<forall>x\<in>set (pre True c'). lt cmpfunc x n) \<and>
         (\<forall>x\<in>set (post True c'). lt cmpfunc n x) \<and>
         (\<forall>a. root_ptr t' = Some a \<longrightarrow> cmpfunc n a = 0)"
  using assms(2-)
proof (induction t arbitrary: c)
  case Leaf
  then show ?case by auto
next
  case (Node l a b r)
  consider "cmpfunc n a = 0" | "cmpfunc n a < 0" | "0 < cmpfunc n a"
    by linarith
  then show ?case
  proof cases
    case 1
    then show ?thesis using Node.prems by auto
  next
    case 2
    let ?c = "(False, a, b, r) # c"
    have p: "path_to cmpfunc n l ?c = (c', t')"
      using Node.prems(1) 2 by simp
    have na: "lt cmpfunc n a" using 2 by (simp add: lt_def)
    have "\<forall>x\<in>set (inorder r). lt cmpfunc a x"
      using Node.prems(2) by (auto simp: sorted_wrt_append)
    then have "\<forall>x\<in>set (post True ?c). lt cmpfunc n x"
      using Node.prems(4) na cmp_okD(1)[OF ok] by auto
    with Node.IH(1)[OF p] Node.prems(2,3) show ?thesis
      by (simp add: mk_def)
  next
    case 3
    let ?c = "(True, a, b, l) # c"
    have p: "path_to cmpfunc n r ?c = (c', t')"
      using Node.prems(1) 3 by simp
    have na: "lt cmpfunc a n" using 3 cmp_okD(2)[OF ok] by simp
    have "\<forall>x\<in>set (inorder l). lt cmpfunc x a"
      using Node.prems(2) by (auto simp: sorted_wrt_append)
    then have "\<forall>x\<in>set (pre True ?c). lt cmpfunc x n"
      using Node.prems(3) na cmp_okD(1)[OF ok] by auto
    with Node.IH(2)[OF p] Node.prems(2,4) show ?thesis
      by (simp add: mk_def)
  qed
qed

lemma insert_descend_sim:
  assumes "zip_rep s c t" "path_to cmpfunc n t c = (c', t')"
  shows "avl_insert_descend cmpfunc s n (ctx_slot c) (root_ptr t) (ctx_par c) =
           Some (case root_ptr t' of None \<Rightarrow> Inr (ctx_slot c', ctx_par c') | Some a \<Rightarrow> Inl a)
         \<and> zip_rep s c' t'"
  using assms
proof (induction t arbitrary: c)
  case Leaf
  then show ?case
    by (subst avl_insert_descend.simps) auto
next
  case (Node l a b r)
  have m: "Node l a b r = mk False a b l r" "Node l a b r = mk True a b r l"
    by (simp_all add: mk_def)
  have zl: "zip_rep s ((False, a, b, r) # c) l"
    using Node.prems(1) by (simp add: zip_rep_up mk_def)
  have zr: "zip_rep s ((True, a, b, l) # c) r"
    using Node.prems(1) by (simp add: zip_rep_up mk_def)
  have ch: "avl_children (heap s a) 0 = root_ptr l" "avl_children (heap s a) 1 = root_ptr r"
    using Node.prems(1) by (auto simp: zip_rep_def)
  consider "cmpfunc n a = 0" | "cmpfunc n a < 0" | "0 < cmpfunc n a"
    by linarith
  then show ?case
  proof cases
    case 1
    then show ?thesis using Node.prems
      by (subst avl_insert_descend.simps) auto
  next
    case 2
    then have "path_to cmpfunc n l ((False, a, b, r) # c) = (c', t')"
      using Node.prems(2) by simp
    from Node.IH(1)[OF zl this] 2 ch show ?thesis
      by (subst avl_insert_descend.simps) (simp add: avl_cmp2idx_def)
  next
    case 3
    then have "path_to cmpfunc n r ((True, a, b, l) # c) = (c', t')"
      using Node.prems(2) by simp
    from Node.IH(2)[OF zr this] 3 ch show ?thesis
      by (subst avl_insert_descend.simps) (simp add: avl_cmp2idx_def)
  qed
qed

lemma insert_link:
  assumes z: "zip_rep s c Leaf" and n: "n \<notin> ctx_nodes c"
  defines "s1 \<equiv> set_child (set_child (set_balance (set_parent
              (store_slot s (ctx_slot c) (Some n)) n (ctx_par c)) n 0) n 1 None) n 0 None"
  shows "zip_rep s1 c (Node Leaf n 0 Leaf)" "same_outside s s1 (insert n (ctx_nodes c))"
proof -
  note ctx = rep_ctx_store_slot[OF zip_repD(1)[OF z], of "Some n"]
  show "zip_rep s1 c (Node Leaf n 0 Leaf)"
    using z n ctx by (simp add: zip_rep_def s1_def setters_upd)
  show "same_outside s s1 (insert n (ctx_nodes c))"
    by (simp add: same_outside_def s1_def setters_upd)
qed

lemma nodes_inorder: "nodes t = set (inorder t)"
  using set_trav[of True t] by simp

lemma insert_correct:
  assumes ok: "cmp_ok cmpfunc" and h: "heap_tree s t" and bal: "balanced t" and b: "bst cmpfunc t"
  shows "\<exists>r s' t'. avl_insert cmpfunc s n = Some (r, s') \<and> heap_tree s' t' \<and> balanced t' \<and>
           bst cmpfunc t' \<and> same_outside s s' (insert n (nodes t)) \<and>
           (if \<exists>m\<in>nodes t. cmpfunc n m = 0
            then r \<in> nodes t \<and> cmpfunc n r = 0 \<and> s' = s \<and> t' = t
            else r = n \<and> nodes t' = insert n (nodes t))"
proof -
  obtain c' t' where p: "path_to cmpfunc n t [] = (c', t')"
    by (cases "path_to cmpfunc n t []")
  have z: "zip_rep s [] t" using h by (simp add: heap_tree_def)
  have root: "avl_root s = root_ptr t" using z by (simp add: zip_rep_def)
  from path_to_props[OF ok p] b
  have pl: "plug c' t' = t" and lo: "\<forall>x\<in>set (pre True c'). lt cmpfunc x n"
    and hi: "\<forall>x\<in>set (post True c'). lt cmpfunc n x"
    and eq: "\<forall>a. root_ptr t' = Some a \<longrightarrow> cmpfunc n a = 0"
    by (auto simp: bst_def)
  from insert_descend_sim[OF z p]
  have d: "avl_insert_descend cmpfunc s n Root_slot (avl_root s) None =
      Some (case root_ptr t' of None \<Rightarrow> Inr (ctx_slot c', ctx_par c') | Some a \<Rightarrow> Inl a)"
    and z': "zip_rep s c' t'"
    by (simp_all add: root)
  show ?thesis
  proof (cases t')
    case (Node l a bb r)
    have "a \<in> nodes t" using pl[symmetric] by (simp add: Node)
    moreover have "cmpfunc n a = 0" using eq by (simp add: Node)
    ultimately show ?thesis
      using d h bal b by (auto simp: avl_insert_def Node)
  next
    case Leaf
    have io: "inorder t = pre True c' @ post True c'"
      using trav_plug[of True c' t'] pl by (simp add: Leaf)
    have none: "\<not> (\<exists>m\<in>nodes t. cmpfunc n m = 0)"
    proof
      assume "\<exists>m\<in>nodes t. cmpfunc n m = 0"
      then obtain m where m: "m \<in> set (pre True c') \<union> set (post True c')" "cmpfunc n m = 0"
        by (auto simp: nodes_inorder io)
      then show False
        using lo hi cmp_okD(3)[OF ok m(2)] by auto
    qed
    then have "n \<notin> nodes t" using cmp_okD(6)[OF ok] by auto
    then have n: "n \<notin> ctx_nodes c'" using pl[symmetric] by simp
    let ?s1 = "set_child (set_child (set_balance (set_parent
              (store_slot s (ctx_slot c') (Some n)) n (ctx_par c')) n 0) n 1 None) n 0 None"
    let ?t0 = "Node Leaf n 0 Leaf"
    note l = insert_link[OF z'[unfolded Leaf] n]
    have "bal_ctx c' 0" using bal pl[symmetric] by (simp add: balanced_plug Leaf)
    from ins_up_balanced[OF this, of ?t0]
    obtain t'' where u: "ins_up c' ?t0 = Some t''" "balanced t''"
      by auto
    from insert_retrace_sim[OF l(1) _ u(1)]
    obtain s'' where s'': "avl_insert_retrace ?s1 n (ctx_par c') = Some s''" "heap_tree s'' t''"
      "same_outside ?s1 s'' (nodes ?t0 \<union> ctx_nodes c')"
      by auto
    have io': "inorder t'' = pre True c' @ n # post True c'"
      using ins_up_trav[OF u(1), of True] by (simp add: trav_plug)
    have "sorted_wrt (lt cmpfunc) (inorder t'')"
      using b lo hi by (auto simp: bst_def io io' sorted_wrt_append)
    moreover have "nodes t'' = insert n (nodes t)"
      by (auto simp: nodes_inorder io io')
    moreover have "same_outside s s'' (insert n (nodes t))"
      using l(2) s''(3) by (rule same_outside_trans) (use pl[symmetric] in \<open>auto simp: Leaf\<close>)
    ultimately show ?thesis
      using d s'' u none
      by (intro exI[of _ n] exI[of _ s''] exI[of _ t'']) (simp add: avl_insert_def Leaf bst_def)
  qed
qed

text \<open>
  Following the children on side \<^verbatim>\<open>e\<close> down to the node that has none there: the
  context of that node.
\<close>

fun down :: "bool \<Rightarrow> tree \<Rightarrow> frame list \<Rightarrow> frame list \<times> tree" where
  "down e Leaf c = (c, Leaf)"
| "down e (Node l a b r) c =
     (if e then (if r = Leaf then (c, Node l a b r) else down e r ((e, a, b, l) # c))
      else (if l = Leaf then (c, Node l a b r) else down e l ((e, a, b, r) # c)))"

text \<open>
  Removal of the node at the root of \<^verbatim>\<open>t\<close>, in the context \<^verbatim>\<open>c\<close>: the
  replacement is the neighbour on the side the balance selects, the deepest node of
  that subtree towards the removed node.
\<close>

definition f_remove :: "frame list \<Rightarrow> tree \<Rightarrow> tree option" where
  "f_remove c t =
     (case t of
        Leaf \<Rightarrow> None
      | Node l x b r \<Rightarrow>
          if l = Leaf \<and> r = Leaf then del_up c Leaf
          else
            (let d = (0 \<le> b) in
             case down (\<not> d) (child d t) [] of
               (c2, M) \<Rightarrow>
                 (case M of
                    Leaf \<Rightarrow> None
                  | Node _ m bm _ \<Rightarrow>
                      if c2 \<noteq> [] \<and> (0 \<le> bm) \<noteq> d \<and> child d M \<noteq> Leaf then None
                      else del_up (c2 @ (d, m, b, child (\<not> d) t) # c) (child d M))))"

lemma tree_induct_mk [case_names Leaf mk]:
  assumes "P Leaf" "\<And>a b t u. P t \<Longrightarrow> P u \<Longrightarrow> P (mk e a b t u)"
  shows "P t"
proof (induction t)
  case Leaf
  then show ?case by (rule assms(1))
next
  case (Node l a b r)
  show ?case
    using assms(2)[of l r a b] assms(2)[of r l a b] Node by (cases e) (auto simp: mk_def)
qed

lemma down_mk [simp]:
  "down e (mk e a b t u) c = (if t = Leaf then (c, mk e a b t u) else down e t ((e, a, b, u) # c))"
  by (auto simp: mk_def)

lemma plug_append [simp]: "plug (c2 @ c1) t = plug c1 (plug c2 t)"
  by (induction c2 arbitrary: t) auto

lemma down_props:
  assumes "t \<noteq> Leaf" "down e t c0 = (c', M)"
  shows "\<exists>c2 m bm g. c' = c2 @ c0 \<and> M = mk e m bm Leaf g \<and> plug c2 M = t \<and>
           (\<forall>f\<in>set c2. fst f = e)"
  using assms
proof (induction t arbitrary: c0 rule: tree_induct_mk[where e = e])
  case Leaf
  then show ?case by simp
next
  case (mk a b t u)
  show ?case
  proof (cases "t = Leaf")
    case True
    then show ?thesis using mk.prems by auto
  next
    case False
    then have "down e t ((e, a, b, u) # c0) = (c', M)"
      using mk.prems by simp
    from mk.IH(1)[OF False this]
    obtain c2 m bm g where c2: "c' = c2 @ (e, a, b, u) # c0" "M = mk e m bm Leaf g"
      "plug c2 M = t" "\<forall>f\<in>set c2. fst f = e"
      by auto
    show ?thesis
      by (rule exI[of _ "c2 @ [(e, a, b, u)]"]) (use c2 in auto)
  qed
qed

lemma pre_all_other: "\<forall>f\<in>set c. fst f = (\<not> d) \<Longrightarrow> pre d c = []"
  by (induction c) auto

fun ht_ctx :: "frame list \<Rightarrow> int \<Rightarrow> int" where
  "ht_ctx [] h = h"
| "ht_ctx ((d, a, b, u) # c) h = ht_ctx c (1 + max h (ht u))"

lemma ht_plug: "ht (plug c t) = ht_ctx c (ht t)"
  by (induction c arbitrary: t) auto

lemma bal_ctx_append: "bal_ctx (c2 @ c1) h = (bal_ctx c2 h \<and> bal_ctx c1 (ht_ctx c2 h))"
  by (induction c2 arbitrary: h) auto

lemma pre_append [simp]: "pre e (c2 @ c1) = pre e c1 @ pre e c2"
  by (induction c2) auto

lemma post_append [simp]: "post e (c2 @ c1) = post e c2 @ post e c1"
  by (induction c2) auto

lemma trav_removed:
  assumes "trav d old = A @ x # B" "trav d new = A @ B"
  shows "\<exists>xs ys. inorder old = xs @ x # ys \<and> inorder new = xs @ ys"
proof (cases d)
  case True
  then show ?thesis using assms by auto
next
  case False
  then have "inorder old = rev B @ x # rev A" "inorder new = rev B @ rev A"
    using assms by (auto simp: trav_def rev_swap)
  then show ?thesis by blast
qed

lemma f_remove_mk:
  assumes "(0 \<le> b) = d" "\<not> (D = Leaf \<and> U = Leaf)" "down (\<not> d) D [] = (c2, mk d m bm g Leaf)"
    "\<not> (c2 \<noteq> [] \<and> (0 \<le> bm) \<noteq> d \<and> g \<noteq> Leaf)"
  shows "f_remove c (mk d x b D U) = del_up (c2 @ (d, m, b, U) # c) g"
  using assms by (cases d) (auto simp: f_remove_def mk_def)

lemma f_remove_leaf: "f_remove c (Node Leaf x b Leaf) = del_up c Leaf"
  by (simp add: f_remove_def)

lemma remove_balanced:
  assumes t: "t = Node l x b r" and bal: "balanced t" "bal_ctx c (ht t)"
  shows "\<exists>t'. f_remove c t = Some t' \<and> balanced t' \<and>
           (\<exists>xs ys. inorder (plug c t) = xs @ x # ys \<and> inorder t' = xs @ ys)"
proof (cases "l = Leaf \<and> r = Leaf")
  case True
  have "ht t = 1" using True t by simp
  from del_up_balanced[OF bal(2)[unfolded this], of Leaf]
  obtain t' where t': "del_up c Leaf = Some t'" "balanced t'" by auto
  have "inorder t' = pre True c @ post True c"
    using del_up_trav[OF t'(1), of True] by (simp add: trav_plug)
  moreover have "inorder (plug c t) = pre True c @ x # post True c"
    using trav_plug[of True c t] True t by simp
  ultimately show ?thesis
    using t' True by (auto simp: f_remove_def t)
next
  case False
  define d where "d = (0 \<le> b)"
  obtain D U where tm: "t = mk d x b D U"
    using Node_is_mk[of l x b r d] t by auto
  have DO: "D = child d t" "U = child (\<not> d) t"
    by (simp_all add: tm)
  have nl: "\<not> (D = Leaf \<and> U = Leaf)"
    using False tm t by (cases d) (auto simp: mk_def)
  have b: "b = sg d * (ht D - ht U)" "\<bar>b\<bar> \<le> 1" "balanced D" "balanced U"
    using bal(1) by (auto simp: tm)
  have D: "D \<noteq> Leaf"
  proof
    assume "D = Leaf"
    then show False
      using b(1) nl d_def ht_nonneg[of U] by (cases d) auto
  qed
  obtain c2 M where dn: "down (\<not> d) D [] = (c2, M)"
    by (cases "down (\<not> d) D []")
  from down_props[OF D dn]
  obtain m bm g where M: "M = mk (\<not> d) m bm Leaf g" "plug c2 M = D" "\<forall>f\<in>set c2. fst f = (\<not> d)"
    by auto
  have M': "M = mk d m bm g Leaf"
    using M(1) mk_flip[of d m bm g Leaf] by simp
  have bM: "balanced M" "bal_ctx c2 (ht M)"
    using b(3) M(2) balanced_plug[of c2 M] by auto
  have hM: "ht M = ht g + 1"
    using ht_nonneg[of g] by (simp add: M')
  have side: "\<not> (c2 \<noteq> [] \<and> (0 \<le> bm) \<noteq> d \<and> g \<noteq> Leaf)"
    using bM(1) ht_nonneg[of g] by (cases d) (auto simp: M')
  let ?c = "c2 @ (d, m, b, U) # c"
  have hD: "ht_ctx c2 (ht M) = ht D"
    using ht_plug[of c2 M] M(2) by simp
  have "bal_ctx ?c (ht M)"
    using bM(2) b bal(2) hD by (simp add: bal_ctx_append tm)
  from del_up_balanced[OF this, of g] bM(1) hM
  obtain t' where t': "del_up ?c g = Some t'" "balanced t'"
    by (auto simp: M')
  have f: "f_remove c t = Some t'"
    using f_remove_mk[OF d_def[symmetric] nl dn[unfolded M'] side, of c x] t'(1)
    by (simp add: tm)
  have "trav d t' = pre d c @ trav d U @ m # trav d g @ post d c2 @ post d c"
    using del_up_trav[OF t'(1), of d] pre_all_other[OF M(3)] by (simp add: trav_plug)
  moreover have "trav d D = m # trav d g @ post d c2"
    using trav_plug[of d c2 M] M(2) pre_all_other[OF M(3)] by (simp add: M')
  then have "trav d (plug c t) = (pre d c @ trav d U) @ x # (m # trav d g @ post d c2 @ post d c)"
    by (simp add: trav_plug tm)
  ultimately have "\<exists>xs ys. inorder (plug c t) = xs @ x # ys \<and> inorder t' = xs @ ys"
    by (intro trav_removed[of d _ "pre d c @ trav d U" x "m # trav d g @ post d c2 @ post d c"])
      auto
  then show ?thesis using f t' by blast
qed

lemma zip_rep_append: "zip_rep s (c2 @ c1) t = zip_rep s c1 (plug c2 t)"
proof (induction c2 arbitrary: t)
  case Nil
  then show ?case by simp
next
  case (Cons f c2)
  obtain d a b u where f: "f = (d, a, b, u)" by (cases f)
  show ?case by (simp add: f zip_rep_up Cons.IH)
qed

lemma rep_plug_sub: "rep h (plug c t) \<Longrightarrow> rep h t"
proof (induction c arbitrary: t)
  case Nil
  then show ?case by simp
next
  case (Cons f c)
  obtain d a b u where f: "f = (d, a, b, u)" by (cases f)
  from Cons.IH[of "mk d a b t u"] Cons.prems show ?case by (simp add: f)
qed

lemma descend_sim:
  assumes "rep (heap s) t" "root_ptr t = Some a" "down e t c0 = (c', M)"
  shows "\<exists>m. root_ptr M = Some m \<and> avl_descend s (idx e) a = Some m"
  using assms
proof (induction t arbitrary: a c0 rule: tree_induct_mk[where e = e])
  case Leaf
  then show ?case by simp
next
  case (mk a' b t u)
  have a: "a' = a" using mk.prems(2) by simp
  have ch: "avl_children (heap s a) (idx e) = root_ptr t" "rep (heap s) t"
    using mk.prems(1) by (auto simp: a)
  show ?case
  proof (cases "t = Leaf")
    case True
    then show ?thesis
      using mk.prems ch by (subst avl_descend.simps) auto
  next
    case False
    then obtain r where r: "root_ptr t = Some r" by (cases t) auto
    have "down e t ((e, a', b, u) # c0) = (c', M)"
      using mk.prems(3) False by simp
    from mk.IH(1)[OF ch(2) r this] show ?thesis
      using ch r by (subst avl_descend.simps) auto
  qed
qed

lemma rep_parent_in:
  assumes "rep h t" "a \<in> nodes t" "root_ptr t \<noteq> Some a"
  shows "\<exists>p\<in>nodes t. avl_parent (h a) = Some p"
  using assms
proof (induction t)
  case Leaf
  then show ?case by simp
next
  case (Node l x b r)
  then have "a \<in> nodes l \<or> a \<in> nodes r" by auto
  then show ?case
  proof
    assume a: "a \<in> nodes l"
    show ?thesis
    proof (cases "root_ptr l = Some a")
      case True
      then show ?thesis using Node.prems(1) by auto
    next
      case False
      from Node.IH(1)[OF _ a False] Node.prems(1) show ?thesis by auto
    qed
  next
    assume a: "a \<in> nodes r"
    show ?thesis
    proof (cases "root_ptr r = Some a")
      case True
      then show ?thesis using Node.prems(1) by auto
    next
      case False
      from Node.IH(2)[OF _ a False] Node.prems(1) show ?thesis by auto
    qed
  qed
qed

lemma rep_plug_replace:
  assumes "rep h (plug c T)" "rep h' T'" "root_ptr T' = root_ptr T" "nodes T' \<subseteq> nodes T"
    and "x \<notin> ctx_nodes c"
    and "\<And>a. a \<in> ctx_nodes c \<Longrightarrow>
           avl_children (h' a) = avl_children (h a) \<and> avl_balance (h' a) = avl_balance (h a)"
    and "\<And>a. a \<in> ctx_nodes c \<or> root_ptr T = Some a \<Longrightarrow> avl_parent (h a) \<noteq> Some x \<Longrightarrow>
           avl_parent (h' a) = avl_parent (h a)"
  shows "rep h' (plug c T')"
  using assms
proof (induction c arbitrary: T T')
  case Nil
  then show ?case by simp
next
  case (Cons f c)
  obtain d a b u where f: "f = (d, a, b, u)" by (cases f)
  have sub: "rep h (mk d a b T u)"
    using rep_plug_sub[of h c "mk d a b T u"] Cons.prems(1) by (simp add: f)
  have ax: "a \<noteq> x" "x \<notin> nodes u" "x \<notin> ctx_nodes c"
    using Cons.prems(5) by (auto simp: f)
  have fields: "avl_children (h' a) = avl_children (h a)" "avl_balance (h' a) = avl_balance (h a)"
    using Cons.prems(6)[of a] by (auto simp: f)
  have pT: "par_ok h' (root_ptr T') (Some a)"
  proof (cases T)
    case Leaf
    then show ?thesis using Cons.prems(3) by simp
  next
    case (Node l r br rt)
    then have "avl_parent (h r) = Some a" using sub by simp
    then show ?thesis
      using Cons.prems(7)[of r] Cons.prems(3) ax by (simp add: Node)
  qed
  have pu: "par_ok h' (root_ptr u) (Some a)"
  proof (cases u)
    case Leaf
    then show ?thesis by simp
  next
    case (Node l r br rt)
    then have "avl_parent (h r) = Some a" using sub by simp
    then show ?thesis
      using Cons.prems(7)[of r] ax by (simp add: Node f)
  qed
  have "rep h' u = rep h u"
  proof (rule rep_cong_nodes)
    fix a' assume "a' \<in> nodes u"
    then show "avl_children (h' a') = avl_children (h a') \<and> avl_balance (h' a') = avl_balance (h a')"
      using Cons.prems(6)[of a'] by (simp add: f)
  next
    fix a' assume a': "a' \<in> nodes u" "root_ptr u \<noteq> Some a'"
    from rep_parent_in[OF _ a'] sub obtain p where "p \<in> nodes u" "avl_parent (h a') = Some p"
      by auto
    then show "avl_parent (h' a') = avl_parent (h a')"
      using Cons.prems(7)[of a'] a' ax by (auto simp: f)
  qed
  then have new: "rep h' (mk d a b T' u)"
    using sub fields pT pu Cons.prems(2,3,4) by auto
  have "rep h' (plug c (mk d a b T' u))"
  proof (rule Cons.IH[of "mk d a b T u"])
    show "rep h (plug c (mk d a b T u))" using Cons.prems(1) by (simp add: f)
    show "rep h' (mk d a b T' u)" by (rule new)
    show "root_ptr (mk d a b T' u) = root_ptr (mk d a b T u)" by simp
    show "nodes (mk d a b T' u) \<subseteq> nodes (mk d a b T u)" using Cons.prems(4) by auto
    show "x \<notin> ctx_nodes c" by (rule ax)
    show "avl_children (h' a') = avl_children (h a') \<and> avl_balance (h' a') = avl_balance (h a')"
      if "a' \<in> ctx_nodes c" for a'
      using Cons.prems(6)[of a'] that by (simp add: f)
    show "avl_parent (h' a') = avl_parent (h a')"
      if "a' \<in> ctx_nodes c \<or> root_ptr (mk d a b T u) = Some a'" "avl_parent (h a') \<noteq> Some x" for a'
      using Cons.prems(7)[of a'] that by (auto simp: f)
  qed
  then show ?case by (simp add: f)
qed

lemma remove_retrace_None [simp]: "avl_remove_retrace s None w = Some s"
  by (subst avl_remove_retrace.simps) simp

lemma avl_remove_unlink:
  "avl_remove s node =
     (case avl_remove_unlink s node of
        None \<Rightarrow> None
      | Some (s1, p, w) \<Rightarrow> avl_remove_retrace s1 p w)"
  by (simp add: avl_remove_def avl_remove_unlink_def Let_def split: option.splits)

lemma prev_next_down:
  assumes "rep (heap s) (mk d x b D U)" "D \<noteq> Leaf" "down (\<not> d) D c0 = (c', M)"
  shows "\<exists>m. root_ptr M = Some m \<and> avl_prev_next s x (sg d) = Some (Some m)"
proof -
  obtain r where r: "root_ptr D = Some r" using assms(2) by (cases D) auto
  have "rep (heap s) D" "avl_children (heap s x) (idx d) = Some r"
    using assms(1) r by auto
  with descend_sim[OF _ r assms(3), of s] show ?thesis
    by (auto simp: avl_prev_next_def)
qed

lemma remove_pick_sim:
  assumes "rep (heap s) (mk d x b D U)" "D \<noteq> Leaf" "down (\<not> d) D c0 = (c', M)" "(0 \<le> b) = d"
  shows "\<exists>m. root_ptr M = Some m \<and> avl_remove_pick s x = Some (Some m)"
proof -
  have "avl_balance (heap s x) = b" using assms(1) by simp
  with prev_next_down[OF assms(1-3)] assms(4) show ?thesis
    by (cases d) (auto simp: avl_remove_pick_def)
qed

lemma unlink_leaf:
  assumes z: "zip_rep s c (Node Leaf x b Leaf)"
  shows "\<exists>s1 w. avl_remove_unlink s x = Some (s1, ctx_par c, w) \<and> arrives w c \<and>
           zip_rep s1 c Leaf \<and> same_outside s s1 (ctx_nodes c)"
proof (cases c)
  case Nil
  then show ?thesis
    using z by (auto simp: avl_remove_unlink_def zip_rep_def same_outside_def)
next
  case (Cons f c')
  obtain d a ba u where f: "f = (d, a, ba, u)" by (cases f)
  have w: "avl_which_child s x = idx d"
    using which_child_zip[OF z[unfolded Cons f]] by simp
  note ctx = rep_ctx_store_slot[OF zip_repD(1)[OF z], of None]
  have "zip_rep (set_child s a (idx d) None) c Leaf"
    using ctx by (simp add: zip_rep_def Cons f store_slot_def)
  moreover have "same_outside s (set_child s a (idx d) None) (ctx_nodes c)"
    by (simp add: same_outside_def setters_upd Cons f)
  ultimately show ?thesis
    using z w by (auto simp: avl_remove_unlink_def zip_rep_def Cons f)
qed

lemma which_child_cong:
  assumes "heap s' x = heap s x"
    "\<And>p. avl_parent (heap s x) = Some p \<Longrightarrow> avl_children (heap s' p) 0 = avl_children (heap s p) 0"
  shows "avl_which_child s' x = avl_which_child s x"
  using assms by (auto simp: avl_which_child_def split: option.splits)

lemma unlink_direct:
  assumes z: "zip_rep s c (mk d x b (mk d m bm g Leaf) U)" and d: "(0 \<le> b) = d"
  shows "\<exists>s1. avl_remove_unlink s x = Some (s1, Some m, idx d) \<and>
           zip_rep s1 ((d, m, b, U) # c) g \<and>
           same_outside s s1 (nodes (mk d m bm g Leaf) \<union> nodes U \<union> ctx_nodes c)"
proof -
  let ?D = "mk d m bm g Leaf"
  define sh where "sh = set_parent (set_balance (set_parent_opt
      (set_child s m (idx (\<not> d)) (root_ptr U)) (root_ptr U) (Some m)) m b) m (ctx_par c)"
  define s1 where "s1 = store_slot sh (ctx_slot c) (Some m)"
  have dn: "down (\<not> d) ?D [] = ([], ?D)"
    using down_mk[of "\<not> d" m bm Leaf g "[]"] mk_flip[of d m bm g Leaf] by simp
  have r: "rep (heap s) (mk d x b ?D U)" using z by (simp add: zip_rep_def)
  from remove_pick_sim[OF r _ dn d]
  have pick: "avl_remove_pick s x = Some (Some m)" by simp
  have wm: "avl_which_child s m = idx d"
    using which_child_zip[of s d x b U c ?D m] z by (simp add: zip_rep_up)
  have xm: "x \<noteq> m" "x \<notin> nodes U" "m \<notin> nodes U" "x \<notin> ctx_nodes c" "m \<notin> ctx_nodes c"
    "nodes U \<inter> ctx_nodes c = {}" "nodes g \<inter> ctx_nodes c = {}" "m \<notin> nodes g"
    "nodes g \<inter> nodes U = {}"
    using z by (auto simp: zip_rep_def Int_Un_distrib2)
  have hx: "heap sh x = heap s x"
    using xm by (simp add: sh_def setters_upd)
  have wx: "avl_which_child sh x = avl_which_child s x"
  proof (rule which_child_cong[OF hx])
    fix p assume "avl_parent (heap s x) = Some p"
    then have "p \<in> ctx_nodes c" using z by (cases c) (auto simp: zip_rep_def)
    then show "avl_children (heap sh p) 0 = avl_children (heap s p) 0"
      using xm by (auto simp: sh_def setters_upd)
  qed
  have sl: "slot_of s x = ctx_slot c"
    using slot_of_zip[OF z] by simp
  have fx: "avl_children (heap s x) (idx d) = Some m" "avl_children (heap s x) (idx (\<not> d)) = root_ptr U"
    "avl_balance (heap s x) = b" "avl_parent (heap s x) = ctx_par c" "avl_parent (heap s m) = Some x"
    "avl_children (heap s m) (idx d) = root_ptr g" "avl_children (heap s m) (idx (\<not> d)) = None"
    "avl_balance (heap s m) = bm"
    using z by (auto simp: zip_rep_def)
  have nl: "\<not> (avl_children (heap s x) 0 = None \<and> avl_children (heap s x) 1 = None)"
    using fx(1) by (cases d) auto
  have ws: "avl_which_child s x = idx dc" if "c = (dc, np, bc, uc) # c'" for dc np bc uc c'
    using which_child_zip[of s dc np bc uc c' _ x] z that by simp
  have unl: "avl_remove_unlink s x = Some (s1, Some m, idx d)"
    unfolding avl_remove_unlink_def
    using nl pick wm fx xm wx ws
    by (cases c) (auto simp: Let_def s1_def sh_def setters_upd store_slot_def)
  have rc: "rep_ctx (heap sh) (avl_root sh) c (Some x)"
    using z xm by (simp add: sh_def zip_rep_def setters_upd)
  note ctx = rep_ctx_store_slot[OF rc, of "Some m"]
  have zip: "zip_rep s1 c (mk d m b g U)"
    using z xm ctx fx
    by (simp add: zip_rep_def s1_def sh_def setters_upd store_slot_sel Int_Un_distrib2 Int_Un_distrib)
  have so: "same_outside s s1 (nodes ?D \<union> nodes U \<union> ctx_nodes c)"
    by (auto simp: same_outside_def s1_def sh_def setters_upd store_slot_sel)
  show ?thesis
    using unl zip so by (auto simp: zip_rep_up)
qed

lemma root_ptr_plug:
  "c \<noteq> [] \<Longrightarrow> root_ptr (plug c t) = root_ptr (plug c t')"
proof (induction c arbitrary: t t')
  case Nil
  then show ?case by simp
next
  case (Cons f c)
  obtain d a b u where f: "f = (d, a, b, u)" by (cases f)
  show ?case
    using Cons.IH[of "mk d a b t u" "mk d a b t' u"] by (cases "c = []") (auto simp: f)
qed

lemma root_ptr_plug_in:
  "c \<noteq> [] \<Longrightarrow> \<exists>a\<in>ctx_nodes c. root_ptr (plug c t) = Some a"
proof (induction c arbitrary: t)
  case Nil
  then show ?case by simp
next
  case (Cons f c)
  obtain d a b u where f: "f = (d, a, b, u)" by (cases f)
  show ?case
    using Cons.IH[of "mk d a b t u"] by (cases "c = []") (auto simp: f)
qed

lemma ctx_nodes_append [simp]: "ctx_nodes (c2 @ c1) = ctx_nodes c2 \<union> ctx_nodes c1"
  by (induction c2) auto

lemma unlink_deep:
  assumes z: "zip_rep s c (mk d x b D U)" and d: "(0 \<le> b) = d"
    and D: "D = plug c2 (mk d m bm g Leaf)" and c2: "c2 = (\<not> d, pm, bp, up) # c2'"
    and dn: "down (\<not> d) D [] = (c2, mk d m bm g Leaf)"
    and side: "(0 \<le> bm) = d \<or> g = Leaf"
  shows "\<exists>s1. avl_remove_unlink s x = Some (s1, Some pm, idx (\<not> d)) \<and>
           zip_rep s1 (c2 @ (d, m, b, U) # c) g \<and>
           same_outside s s1 (nodes D \<union> nodes U \<union> ctx_nodes c)"
proof -
  let ?M = "mk d m bm g Leaf"
  obtain dr where dr: "root_ptr D = Some dr" "dr \<in> ctx_nodes c2"
    using root_ptr_plug_in[of c2 ?M] D c2 by auto
  have Dn: "D \<noteq> Leaf" using dr(1) by auto
  have zM: "zip_rep s (c2 @ (d, x, b, U) # c) ?M"
    using z by (simp add: zip_rep_append zip_rep_up D)
  have zT: "zip_rep s (c2' @ (d, x, b, U) # c) (mk (\<not> d) pm bp ?M up)"
    using zM by (simp add: c2 zip_rep_up)
  have r: "rep (heap s) (mk d x b D U)" using z by (simp add: zip_rep_def)
  from remove_pick_sim[OF r Dn dn d]
  have pick: "avl_remove_pick s x = Some (Some m)" by simp
  have wm: "avl_which_child s m = idx (\<not> d)"
    using which_child_zip[of s "\<not> d" pm bp up "c2' @ (d, x, b, U) # c" ?M m] zM by (simp add: c2)
  \<comment> \<open>what the memory holds at the nodes involved\<close>
  have fx: "avl_children (heap s x) (idx d) = Some dr"
    "avl_children (heap s x) (idx (\<not> d)) = root_ptr U"
    "avl_balance (heap s x) = b" "avl_parent (heap s x) = ctx_par c"
    "avl_parent (heap s dr) = Some x"
    using z dr(1) by (auto simp: zip_rep_def)
  have fm: "avl_parent (heap s m) = Some pm"
    "avl_children (heap s m) (idx d) = root_ptr g" "avl_children (heap s m) (idx (\<not> d)) = None"
    "avl_balance (heap s m) = bm"
    using zM by (auto simp: zip_rep_def c2)
  have fp: "avl_children (heap s pm) (idx (\<not> d)) = Some m"
    "avl_children (heap s pm) (idx d) = root_ptr up" "avl_balance (heap s pm) = bp"
    "par_ok (heap s) (root_ptr up) (Some pm)" "rep (heap s) up" "rep (heap s) g"
    using zM by (auto simp: zip_rep_def c2)
  have gch: "avl_children (heap s m) (avl_balance2idx bm) = root_ptr g"
    using side fm by (cases d; cases "0 \<le> bm") (auto simp: idx_balance)
  \<comment> \<open>separation\<close>
  have nD: "nodes D = insert m (nodes g) \<union> ctx_nodes c2"
    by (simp add: D)
  have sep: "x \<notin> nodes D" "x \<notin> nodes U" "x \<notin> ctx_nodes c" "nodes D \<inter> nodes U = {}"
    "nodes D \<inter> ctx_nodes c = {}" "nodes U \<inter> ctx_nodes c = {}"
    using z by (auto simp: zip_rep_def Int_Un_distrib2)
  have sepM: "m \<notin> nodes g" "m \<notin> ctx_nodes c2" "nodes g \<inter> ctx_nodes c2 = {}"
    "pm \<notin> nodes up" "pm \<notin> ctx_nodes c2'" "nodes up \<inter> ctx_nodes c2' = {}"
    using zM by (auto simp: zip_rep_def c2 Int_Un_distrib2 Int_Un_distrib)
  have xup: "x \<notin> nodes up" "pm \<noteq> x"
    using sep(1) unfolding nD c2 by auto
  have drup: "dr \<notin> nodes up"
  proof
    assume a: "dr \<in> nodes up"
    show False
    proof (cases "root_ptr up = Some dr")
      case True
      then show False using fp(4) fx(5) xup by simp
    next
      case False
      from rep_parent_in[OF fp(5) a False] fx(5) xup show False by auto
    qed
  qed
  have sep2: "m \<noteq> x" "pm \<noteq> x" "m \<noteq> pm" "m \<notin> nodes U" "pm \<notin> nodes U" "m \<notin> ctx_nodes c"
    "pm \<notin> ctx_nodes c" "nodes g \<inter> nodes U = {}" "nodes g \<inter> ctx_nodes c = {}" "pm \<notin> nodes g"
    "dr \<noteq> m" "dr \<notin> nodes g" "dr \<noteq> x" "dr \<notin> nodes U" "dr \<notin> ctx_nodes c" "dr \<notin> nodes up"
    "m \<notin> nodes up" "nodes g \<inter> nodes up = {}" "nodes up \<inter> nodes U = {}" "x \<notin> nodes up"
    "nodes up \<inter> ctx_nodes c = {}" "x \<notin> ctx_nodes c2'" "x \<notin> nodes g"
    using sep sepM dr(2) drup unfolding nD c2 by auto
  define sa where "sa = set_child s m (idx (\<not> d)) (root_ptr U)"
  define sb where "sb = set_parent_opt sa (root_ptr U) (Some m)"
  define sc where "sc = set_child sb pm (idx (\<not> d)) (root_ptr g)"
  define sd where "sd = set_parent_opt sc (root_ptr g) (Some pm)"
  define se where "se = set_child sd m (idx d) (Some dr)"
  define sf where "sf = set_parent_opt se (Some dr) (Some m)"
  define sg where "sg = set_balance sf m b"
  define sh where "sh = set_parent sg m (ctx_par c)"
  define s1 where "s1 = store_slot sh (ctx_slot c) (Some m)"
  note defs = sh_def sg_def sf_def se_def sd_def sc_def sb_def sa_def
  have hx: "heap sh x = heap s x"
    using sep sep2 by (simp add: defs setters_upd)
  have wx: "avl_which_child sh x = avl_which_child s x"
  proof (rule which_child_cong[OF hx])
    fix p assume "avl_parent (heap s x) = Some p"
    then have "p \<in> ctx_nodes c" using z by (cases c) (auto simp: zip_rep_def)
    then show "avl_children (heap sh p) 0 = avl_children (heap s p) 0"
      using sep sep2 by (auto simp: defs setters_upd)
  qed
  have ws: "avl_which_child s x = idx dc" if "c = (dc, np, bc, uc) # c'" for dc np bc uc c'
    using which_child_zip[of s dc np bc uc c' _ x] z that by simp
  have nl: "(avl_children (heap s x) 0 = None \<and> avl_children (heap s x) 1 = None) = False"
    using fx(1) by (cases d) auto
  have reads: "avl_children (heap sa m) (idx (\<not> d)) = root_ptr U"
    "avl_children (heap sd x) (idx d) = Some dr"
    "avl_children (heap se m) (idx d) = Some dr"
    "avl_balance (heap sf x) = b"
    "avl_parent (heap sg x) = ctx_par c"
    using fx sep sep2 by (simp_all add: defs setters_upd)
  have readh: "avl_parent (heap sh m) = ctx_par c" "avl_parent (heap sh x) = ctx_par c"
    using fx sep sep2 by (simp_all add: defs setters_upd)
  note folds = sa_def[symmetric] sb_def[symmetric] sc_def[symmetric] sd_def[symmetric]
    se_def[symmetric] sf_def[symmetric] sg_def[symmetric] sh_def[symmetric]
  have pmx: "avl_parent (heap s m) \<noteq> Some x"
    using fm(1) sep2 by simp
  have unl: "avl_remove_unlink s x = Some (s1, Some pm, idx (\<not> d))"
  proof (cases c)
    case Nil
    have 1: "avl_parent (heap sh m) = None" "s1 = sh\<lparr>avl_root := Some m\<rparr>"
      using readh by (simp_all add: Nil s1_def store_slot_def)
    show ?thesis
      unfolding avl_remove_unlink_def
      using pick wm fx(2) fm(1,4) pmx gch reads 1
      by (simp add: nl Let_def folds)
  next
    case (Cons f c')
    obtain dc np bc uc where f: "f = (dc, np, bc, uc)" by (cases f)
    have 1: "avl_parent (heap sh m) = Some np" "avl_parent (heap sh x) = Some np"
      "avl_which_child sh x = idx dc" "s1 = set_child sh np (idx dc) (Some m)"
      using readh wx ws[OF Cons[unfolded f]] by (simp_all add: Cons f s1_def store_slot_def)
    show ?thesis
      unfolding avl_remove_unlink_def
      using pick wm fx(2) fm(1,4) pmx gch reads 1
      by (simp add: nl Let_def folds)
  qed
  have rc: "rep_ctx (heap sh) (avl_root sh) c (Some x)"
    using z sep sep2 by (simp add: defs zip_rep_def setters_upd)
  note ctx = rep_ctx_store_slot[OF rc, of "Some m"]
  have h1: "heap s1 a = heap sh a" if "a \<notin> ctx_nodes c" for a
    using that by (simp add: s1_def store_slot_sel)
  have rg: "rep (heap s1) g"
    using fp(6) sep sep2 sepM
    by (simp add: s1_def defs setters_upd)
  have rup: "rep (heap s1) up"
    using fp(5) sep sep2 sepM
    by (simp add: s1_def defs setters_upd)
  have rU: "rep (heap s1) U"
    using r sep sep2 sepM
    by (simp add: s1_def defs setters_upd)
  let ?T = "mk (\<not> d) pm bp ?M up" and ?T' = "mk (\<not> d) pm bp g up"
  have rT': "rep (heap s1) ?T'"
    using rg rup fp fm sep sep2 sepM
    by (cases "pm = dr"; simp add: s1_def defs setters_upd store_slot_sel)
  have rD': "rep (heap s1) (plug c2' ?T')"
  proof (rule rep_plug_replace[where h = "heap s" and T = ?T and x = x])
    show "rep (heap s) (plug c2' ?T)" using r by (simp add: D c2)
    show "rep (heap s1) ?T'" by (rule rT')
    show "root_ptr ?T' = root_ptr ?T" by simp
    show "nodes ?T' \<subseteq> nodes ?T" by auto
    show "x \<notin> ctx_nodes c2'" using sep2 by simp
    show "avl_children (heap s1 a) = avl_children (heap s a) \<and>
          avl_balance (heap s1 a) = avl_balance (heap s a)" if "a \<in> ctx_nodes c2'" for a
    proof -
      have "a \<noteq> m" "a \<noteq> pm" "a \<notin> nodes U" "a \<notin> nodes g" "a \<notin> ctx_nodes c"
        using that sep sepM unfolding nD c2 by auto
      then show ?thesis
        by (simp add: s1_def defs setters_upd store_slot_sel)
    qed
    show "avl_parent (heap s1 a) = avl_parent (heap s a)"
      if "a \<in> ctx_nodes c2' \<or> root_ptr ?T = Some a" "avl_parent (heap s a) \<noteq> Some x" for a
    proof -
      have "a \<noteq> m" "a \<notin> nodes U" "a \<notin> nodes g" "a \<notin> ctx_nodes c" "a \<noteq> dr"
        using that sep sepM sep2 fx(5) unfolding nD c2 by auto
      then show ?thesis
        using sep2 by (simp add: s1_def defs setters_upd store_slot_sel)
    qed
  qed
  have pD: "root_ptr (plug c2 g) = Some dr"
    using root_ptr_plug[of c2 g ?M] dr(1) by (simp add: D c2)
  have nD': "nodes (plug c2 g) = nodes g \<union> ctx_nodes c2"
    by simp
  have zip: "zip_rep s1 c (mk d m b (plug c2 g) U)"
    unfolding zip_rep_def rep_mk nD' pD
    using ctx rD' rU sep sep2 sepM fx dr(2)
    by (simp add: c2 s1_def[symmetric])
      (auto simp: s1_def defs setters_upd store_slot_sel nD c2)
  have so: "same_outside s s1 (nodes D \<union> nodes U \<union> ctx_nodes c)"
    using dr(2) unfolding nD c2
    by (auto simp: same_outside_def s1_def defs setters_upd store_slot_sel)
  show ?thesis
    using unl zip so by (auto simp: zip_rep_append zip_rep_up)
qed

lemma remove_sim:
  assumes z: "zip_rep s c t" and t: "t = Node l x b r" and f: "f_remove c t = Some t'"
  shows "\<exists>s'. avl_remove s x = Some s' \<and> heap_tree s' t' \<and>
           same_outside s s' (nodes l \<union> nodes r \<union> ctx_nodes c)"
proof (cases "l = Leaf \<and> r = Leaf")
  case True
  then have d: "del_up c Leaf = Some t'"
    using f by (simp add: t f_remove_leaf)
  from unlink_leaf[of s c x b] z True t
  obtain s1 w where u: "avl_remove_unlink s x = Some (s1, ctx_par c, w)" "arrives w c"
    "zip_rep s1 c Leaf" "same_outside s s1 (ctx_nodes c)"
    by auto
  from remove_retrace_sim[OF u(3) d u(2)]
  obtain s' where s': "avl_remove_retrace s1 (ctx_par c) w = Some s'" "heap_tree s' t'"
    "same_outside s1 s' (nodes Leaf \<union> ctx_nodes c)"
    by auto
  have "same_outside s s' (nodes l \<union> nodes r \<union> ctx_nodes c)"
    using u(4) s'(3) by (rule same_outside_trans) auto
  then show ?thesis
    using u(1) s' by (auto simp: avl_remove_unlink)
next
  case False
  define d where "d = (0 \<le> b)"
  obtain D U where tm: "t = mk d x b D U"
    using Node_is_mk[of l x b r d] t by auto
  have nl: "\<not> (D = Leaf \<and> U = Leaf)"
    using False tm t by (cases d) (auto simp: mk_def)
  have nn: "nodes l \<union> nodes r = nodes D \<union> nodes U"
    using tm t by (cases d) (auto simp: mk_def)
  obtain c2 M where dn: "down (\<not> d) D [] = (c2, M)"
    by (cases "down (\<not> d) D []")
  have fr: "f_remove c t =
      (case M of Leaf \<Rightarrow> None
       | Node _ m bm _ \<Rightarrow>
           if c2 \<noteq> [] \<and> (0 \<le> bm) \<noteq> d \<and> child d M \<noteq> Leaf then None
           else del_up (c2 @ (d, m, b, U) # c) (child d M))"
    using False dn tm t unfolding d_def by (cases "0 \<le> b") (auto simp: f_remove_def mk_def split: tree.splits)
  have D: "D \<noteq> Leaf"
  proof
    assume "D = Leaf"
    then have "M = Leaf" using dn by simp
    then show False using fr f by simp
  qed
  from down_props[OF D dn]
  obtain m bm g where M: "M = mk (\<not> d) m bm Leaf g" "plug c2 M = D"
    by auto
  have M': "M = mk d m bm g Leaf"
    using M(1) mk_flip[of d m bm g Leaf] by simp
  have side: "c2 \<noteq> [] \<Longrightarrow> (0 \<le> bm) = d \<or> g = Leaf"
    and du: "del_up (c2 @ (d, m, b, U) # c) g = Some t'"
    using fr f by (cases d; auto simp: M' mk_def split: if_splits)+
  let ?C = "c2 @ (d, m, b, U) # c"
  have "\<exists>s1 w. avl_remove_unlink s x = Some (s1, ctx_par ?C, w) \<and> arrives w ?C \<and>
          zip_rep s1 ?C g \<and> same_outside s s1 (nodes D \<union> nodes U \<union> ctx_nodes c)"
  proof (cases c2)
    case Nil
    then have "D = mk d m bm g Leaf" using M(2) M' by simp
    from unlink_direct[OF z[unfolded tm this] d_def[symmetric]] this show ?thesis
      by (auto simp: Nil)
  next
    case (Cons f c2')
    obtain e pm bp up where f: "f = (e, pm, bp, up)" by (cases f)
    have "e = (\<not> d)"
      using down_props[OF D dn] by (auto simp: Cons f)
    then have c2: "c2 = (\<not> d, pm, bp, up) # c2'" by (simp add: Cons f)
    from unlink_deep[OF z[unfolded tm] d_def[symmetric] _ c2 dn[unfolded M'] side] M(2) M'
    show ?thesis
      by (auto simp: c2)
  qed
  then obtain s1 w where u: "avl_remove_unlink s x = Some (s1, ctx_par ?C, w)" "arrives w ?C"
    "zip_rep s1 ?C g" "same_outside s s1 (nodes D \<union> nodes U \<union> ctx_nodes c)"
    by auto
  from remove_retrace_sim[OF u(3) du u(2)]
  obtain s' where s': "avl_remove_retrace s1 (ctx_par ?C) w = Some s'" "heap_tree s' t'"
    "same_outside s1 s' (nodes g \<union> ctx_nodes ?C)"
    by auto
  have "nodes g \<union> ctx_nodes ?C \<subseteq> nodes D \<union> nodes U \<union> ctx_nodes c"
    using M(2)[symmetric] by (auto simp: M')
  with u(4) s'(3) have "same_outside s s' (nodes D \<union> nodes U \<union> ctx_nodes c)"
    by (intro same_outside_trans[of s s1 _ s']) auto
  then show ?thesis
    using u(1) s' by (auto simp: avl_remove_unlink nn)
qed

subsection \<open>A removal as a whole\<close>

lemma nodes_plug_ex: "x \<in> nodes t \<Longrightarrow> \<exists>c l b r. t = plug c (Node l x b r)"
proof (induction t)
  case Leaf
  then show ?case by simp
next
  case (Node l a b r)
  show ?case
  proof (cases "x = a")
    case True
    have "Node l a b r = plug [] (Node l x b r)" using True by simp
    then show ?thesis by blast
  next
    case False
    then consider "x \<in> nodes l" | "x \<in> nodes r" using Node.prems by auto
    then show ?thesis
    proof cases
      case 1
      from Node.IH(1)[OF 1] obtain c l' b' r' where "l = plug c (Node l' x b' r')" by blast
      then have "Node l a b r = plug (c @ [(False, a, b, r)]) (Node l' x b' r')"
        by (simp add: mk_def)
      then show ?thesis by blast
    next
      case 2
      from Node.IH(2)[OF 2] obtain c l' b' r' where "r = plug c (Node l' x b' r')" by blast
      then have "Node l a b r = plug (c @ [(True, a, b, l)]) (Node l' x b' r')"
        by (simp add: mk_def)
      then show ?thesis by blast
    qed
  qed
qed

lemma rep_distinct: "rep h t \<Longrightarrow> distinct (inorder t)"
  by (induction t) (auto simp: nodes_inorder)

lemma remove_correct:
  assumes h: "heap_tree s t" and bal: "balanced t" and x: "x \<in> nodes t"
  shows "\<exists>s' t' xs ys. avl_remove s x = Some s' \<and> heap_tree s' t' \<and> balanced t' \<and>
           inorder t = xs @ x # ys \<and> inorder t' = xs @ ys \<and>
           nodes t' = nodes t - {x} \<and> heap s' x = heap s x \<and>
           same_outside s s' (nodes t)"
proof -
  from nodes_plug_ex[OF x] obtain c l b r where t: "t = plug c (Node l x b r)" by blast
  have z: "zip_rep s c (Node l x b r)"
    using h by (simp add: t zip_rep_plug)
  have b: "balanced (Node l x b r)" "bal_ctx c (ht (Node l x b r))"
    using bal unfolding t balanced_plug by auto
  from remove_balanced[OF refl b]
  obtain t' xs ys where t': "f_remove c (Node l x b r) = Some t'" "balanced t'"
    "inorder t = xs @ x # ys" "inorder t' = xs @ ys"
    unfolding t by blast
  from remove_sim[OF z refl t'(1)]
  obtain s' where s': "avl_remove s x = Some s'" "heap_tree s' t'"
    "same_outside s s' (nodes l \<union> nodes r \<union> ctx_nodes c)"
    by blast
  have "x \<notin> nodes l \<union> nodes r \<union> ctx_nodes c"
    using z by (auto simp: zip_rep_def)
  then have hx: "heap s' x = heap s x"
    using s'(3) by (simp add: same_outside_def)
  have so: "same_outside s s' (nodes t)"
    using s'(3) by (auto simp: same_outside_def t)
  have "distinct (inorder t)"
    using h by (auto simp: heap_tree_def zip_rep_def intro: rep_distinct)
  then have "nodes t' = nodes t - {x}"
    unfolding nodes_inorder t'(3,4) by auto
  with s' t' hx so show ?thesis by blast
qed

lemma remove_bst:
  "bst cmpfunc t \<Longrightarrow> inorder t = xs @ x # ys \<Longrightarrow> inorder t' = xs @ ys \<Longrightarrow> bst cmpfunc t'"
  by (auto simp: bst_def sorted_wrt_append)

section \<open>Concrete states\<close>

text \<open>
  States to evaluate the library on: memory with no links, an empty root handle, and
  the comparator of the test driver (nodes ordered by an integer key, here the address).
\<close>

declare avl_search_loop.simps [code] avl_descend.simps [code] avl_climb.simps [code]
  avl_lr_loop.simps [code] avl_insert_descend.simps [code] avl_insert_retrace.simps [code]
  avl_remove_retrace.simps [code]

definition null_node :: avl_node where
  "null_node = \<lparr>avl_children = (\<lambda>_. None), avl_parent = None, avl_balance = 0\<rparr>"

definition empty_state :: avl_state where
  "empty_state = \<lparr>avl_root = None, heap = (\<lambda>_. null_node), rebalance_calls = 0\<rparr>"

definition key_cmp :: avl_cmp_t where
  "key_cmp a b = (if a < b then - 1 else if b < a then 1 else 0)"

datatype avl_op = Insert addr | Remove addr

fun avl_ops :: "avl_cmp_t \<Rightarrow> avl_op list \<Rightarrow> avl_state \<Rightarrow> avl_state option" where
  "avl_ops cmpfunc [] s = Some s"
| "avl_ops cmpfunc (Insert n # ops) s =
     (case avl_insert cmpfunc s n of None \<Rightarrow> None | Some (_, s') \<Rightarrow> avl_ops cmpfunc ops s')"
| "avl_ops cmpfunc (Remove n # ops) s =
     (case avl_remove s n of None \<Rightarrow> None | Some s' \<Rightarrow> avl_ops cmpfunc ops s')"

text \<open>The state after a list of calls on the empty tree.\<close>

definition state_after :: "avl_op list \<Rightarrow> avl_state" where
  "state_after ops = the (avl_ops key_cmp ops empty_state)"

text \<open>The number of invocations of \<^verbatim>\<open>avl_rebalance\<close> during one call.\<close>

definition insert_calls :: "avl_cmp_t \<Rightarrow> avl_state \<Rightarrow> addr \<Rightarrow> nat option" where
  "insert_calls cmpfunc s n =
     map_option (\<lambda>(r, s'). rebalance_calls s' - rebalance_calls s) (avl_insert cmpfunc s n)"

definition remove_calls :: "avl_state \<Rightarrow> addr \<Rightarrow> nat option" where
  "remove_calls s n = map_option (\<lambda>s'. rebalance_calls s' - rebalance_calls s) (avl_remove s n)"

section \<open>Sequences of calls\<close>

text \<open>
  The nodes a caller has in the tree after a list of calls, starting with the set
  \<^verbatim>\<open>S\<close>: an insertion adds its node unless a node that compares equal is there, a
  removal takes its node out.  \<^verbatim>\<open>None\<close>: the list removes a node that is not in
  the tree, which the library does not allow.
\<close>

fun members :: "avl_cmp_t \<Rightarrow> avl_op list \<Rightarrow> addr set \<Rightarrow> addr set option" where
  "members cmpfunc [] S = Some S"
| "members cmpfunc (Insert n # ops) S =
     members cmpfunc ops (if \<exists>m\<in>S. cmpfunc n m = 0 then S else insert n S)"
| "members cmpfunc (Remove n # ops) S =
     (if n \<in> S then members cmpfunc ops (S - {n}) else None)"

lemma sorted_wrt_cases:
  "sorted_wrt P xs \<Longrightarrow> a \<in> set xs \<Longrightarrow> b \<in> set xs \<Longrightarrow> a = b \<or> P a b \<or> P b a"
  by (induction xs) auto

lemma insert_duplicate:
  assumes ok: "cmp_ok cmpfunc" and h: "heap_tree s t" and b: "bst cmpfunc t"
    and m: "m \<in> nodes t" "cmpfunc n m = 0"
  shows "avl_insert cmpfunc s n = Some (m, s)"
proof -
  obtain c' t' where p: "path_to cmpfunc n t [] = (c', t')"
    by (cases "path_to cmpfunc n t []")
  have z: "zip_rep s [] t" using h by (simp add: heap_tree_def)
  have root: "avl_root s = root_ptr t" using z by (simp add: zip_rep_def)
  from path_to_props[OF ok p] b
  have pl: "plug c' t' = t" and lo: "\<forall>x\<in>set (pre True c'). lt cmpfunc x n"
    and hi: "\<forall>x\<in>set (post True c'). lt cmpfunc n x"
    and eq: "\<forall>a. root_ptr t' = Some a \<longrightarrow> cmpfunc n a = 0"
    by (auto simp: bst_def)
  from insert_descend_sim[OF z p]
  have d: "avl_insert_descend cmpfunc s n Root_slot (avl_root s) None =
      Some (case root_ptr t' of None \<Rightarrow> Inr (ctx_slot c', ctx_par c') | Some a \<Rightarrow> Inl a)"
    by (simp_all add: root)
  have "t' \<noteq> Leaf"
  proof
    assume Leaf: "t' = Leaf"
    have io: "inorder t = pre True c' @ post True c'"
      using trav_plug[of True c' t'] pl by (simp add: Leaf)
    then have "m \<in> set (pre True c') \<union> set (post True c')"
      using m(1) by (auto simp: nodes_inorder)
    then show False
      using lo hi cmp_okD(3)[OF ok m(2)] by auto
  qed
  then obtain l a bb r where Node: "t' = Node l a bb r" by (cases t') auto
  have a: "a \<in> nodes t" using pl[symmetric] by (simp add: Node)
  have na: "cmpfunc n a = 0" using eq by (simp add: Node)
  have "a = m"
  proof (rule ccontr)
    assume "a \<noteq> m"
    with sorted_wrt_cases[OF b[unfolded bst_def], of a m] a m(1)
    have "lt cmpfunc a m \<or> lt cmpfunc m a" by (auto simp: nodes_inorder)
    then show False
      using cmp_okD(4)[OF ok na, of m] cmp_okD(4)[OF ok m(2), of a]
        cmp_okD(3)[OF ok na] cmp_okD(3)[OF ok m(2)] by auto
  qed
  then show ?thesis
    using d by (simp add: avl_insert_def Node)
qed

lemma heap_tree_empty: "heap_tree s Leaf = (avl_root s = None)"
  by (auto simp: heap_tree_def zip_rep_def par_ok_def)

lemma ops_invariant:
  assumes ok: "cmp_ok cmpfunc"
  shows "heap_tree s t \<Longrightarrow> balanced t \<Longrightarrow> bst cmpfunc t \<Longrightarrow>
         members cmpfunc ops (nodes t) = Some S \<Longrightarrow>
         \<exists>s' t'. avl_ops cmpfunc ops s = Some s' \<and> heap_tree s' t' \<and> balanced t' \<and>
           bst cmpfunc t' \<and> nodes t' = S"
proof (induction ops arbitrary: s t)
  case Nil
  then show ?case by auto
next
  case (Cons op ops)
  show ?case
  proof (cases op)
    case (Insert n)
    from insert_correct[OF ok Cons.prems(1-3), of n]
    obtain r s1 t1 where i0: "avl_insert cmpfunc s n = Some (r, s1)" "heap_tree s1 t1"
      "balanced t1" "bst cmpfunc t1"
      and c: "if \<exists>m\<in>nodes t. cmpfunc n m = 0 then t1 = t else nodes t1 = insert n (nodes t)"
      by (fastforce split: if_splits)
    have "nodes t1 = (if \<exists>m\<in>nodes t. cmpfunc n m = 0 then nodes t else insert n (nodes t))"
      using c by (simp split: if_splits)
    note i = i0 this
    have "members cmpfunc ops (nodes t1) = Some S"
      using Cons.prems(4) by (simp add: Insert i(5))
    from Cons.IH[OF i(2-4) this] show ?thesis
      by (simp add: Insert i(1))
  next
    case (Remove n)
    have n: "n \<in> nodes t" and m: "members cmpfunc ops (nodes t - {n}) = Some S"
      using Cons.prems(4) by (auto simp: Remove split: if_splits)
    from remove_correct[OF Cons.prems(1,2) n]
    obtain s1 t1 xs ys where r: "avl_remove s n = Some s1" "heap_tree s1 t1" "balanced t1"
      "inorder t = xs @ n # ys" "inorder t1 = xs @ ys" "nodes t1 = nodes t - {n}"
      by blast
    have "bst cmpfunc t1"
      using remove_bst[OF Cons.prems(3) r(4,5)] .
    from Cons.IH[OF r(2,3) this] m r(6) show ?thesis
      by (simp add: Remove r(1))
  qed
qed

lemma run_invariant:
  assumes "cmp_ok cmpfunc" "avl_root s = None" "members cmpfunc ops {} = Some S"
  shows "\<exists>s' t. avl_ops cmpfunc ops s = Some s' \<and> heap_tree s' t \<and> balanced t \<and>
           bst cmpfunc t \<and> nodes t = S"
  using ops_invariant[OF assms(1), of s Leaf ops S] assms(2,3)
  by (simp add: heap_tree_empty bst_def)

lemma key_cmp_ok: "cmp_ok key_cmp"
  by (auto simp: cmp_ok_def key_cmp_def)

section \<open>Balance factors after a double rotation\<close>

lemma store_slot_balance [simp]:
  "avl_balance (heap (store_slot s sl v) x) = avl_balance (heap s x)"
  by (cases sl) (auto simp: store_slot_def setters_upd)

text \<open>
  C6.  When \<^verbatim>\<open>avl_rebalance\<close> takes its double-rotation branch at a node R (the
  heavy child S has a balance that is neither R's nor 0, and Q is the child of S on the
  opposite side), it returns 1 and the balances are set from q, the balance of Q before
  the call: Q ends with 0; if q equals the balance of S then S gets -q and R gets 0; if
  q is nonzero and differs then R gets -q and S gets 0; if q is 0 both get 0.
\<close>

theorem rebalance_double_rotation_balances:
  assumes "avl_children (heap s R) (avl_balance2idx (avl_balance (heap s R))) = Some S"
    and "avl_children (heap s S) (lnot (avl_balance2idx (avl_balance (heap s R)))) = Some Q"
    and "avl_balance (heap s S) \<noteq> avl_balance (heap s R)" "avl_balance (heap s S) \<noteq> 0"
    and "R \<noteq> S" "R \<noteq> Q" "S \<noteq> Q"
    and "q = avl_balance (heap s Q)"
  shows "\<exists>s'. avl_rebalance s R = Some (1, s') \<and> avl_balance (heap s' Q) = 0 \<and>
     (q = avl_balance (heap s S) \<longrightarrow>
        avl_balance (heap s' S) = - q \<and> avl_balance (heap s' R) = 0) \<and>
     (q \<noteq> 0 \<and> q \<noteq> avl_balance (heap s S) \<longrightarrow>
        avl_balance (heap s' R) = - q \<and> avl_balance (heap s' S) = 0) \<and>
     (q = 0 \<longrightarrow> avl_balance (heap s' S) = 0 \<and> avl_balance (heap s' R) = 0)"
  using assms
  by (simp add: avl_rebalance_def Let_def setters_upd)

text \<open>
  A state in the middle of inserting 4 below 3: the retrace has reached 5, whose left
  child 2 leans right, as does the inner grandchild 3.
\<close>

definition node_of :: "addr option \<Rightarrow> addr option \<Rightarrow> addr option \<Rightarrow> int \<Rightarrow> avl_node" where
  "node_of l r p b = \<lparr>avl_children = (\<lambda>_. None)(0 := l, 1 := r), avl_parent = p, avl_balance = b\<rparr>"

definition double_state :: avl_state where
  "double_state =
     \<lparr>avl_root = Some 5,
      heap = (\<lambda>_. null_node)
        (5 := node_of (Some 2) (Some 6) None (- 1),
         2 := node_of (Some 1) (Some 3) (Some 5) 1,
         6 := node_of None None (Some 5) 0,
         1 := node_of None None (Some 2) 0,
         3 := node_of None (Some 4) (Some 2) 1,
         4 := node_of None None (Some 3) 0),
      rebalance_calls = 0\<rparr>"

theorem rebalance_double_rotation_balances_witness:
  "\<exists>s'. avl_rebalance double_state 5 = Some (1, s') \<and> avl_balance (heap s' 3) = 0 \<and>
     avl_balance (heap s' 2) = - 1 \<and> avl_balance (heap s' 5) = 0"
  using rebalance_double_rotation_balances[of double_state 5 2 3 1]
  by (simp add: double_state_def node_of_def avl_balance2idx_def lnot_def)

section \<open>How often a call rotates\<close>

lemma rebalance_calls:
  "avl_rebalance s n = Some (r, s') \<Longrightarrow> rebalance_calls s' = Suc (rebalance_calls s)"
  by (auto simp: avl_rebalance_def Let_def setters_upd split: option.splits if_splits)

lemma insert_retrace_calls:
  "avl_insert_retrace s node parent = Some s' \<Longrightarrow> rebalance_calls s' \<le> Suc (rebalance_calls s)"
proof (rule avl_insert_retrace.raw_induct
    [where P = "\<lambda>s node parent s'. rebalance_calls s' \<le> Suc (rebalance_calls s)"], goal_cases)
  case (1 f s node parent sa)
  then show ?case
    by (fastforce simp: setters_upd split: option.splits if_splits dest!: rebalance_calls)
qed

text \<open>
  C4, as the code has it.  A call of \<^verbatim>\<open>avl_insert\<close> that returns has invoked
  \<^verbatim>\<open>avl_rebalance\<close> at most once.  (A call of \<^verbatim>\<open>avl_remove\<close> goes on
  retracing after a rotation that shortened the subtree, and can rotate again.)
\<close>

theorem insert_rebalances_once:
  "avl_insert cmpfunc s node = Some (r, s') \<Longrightarrow> rebalance_calls s' \<le> rebalance_calls s + 1"
  by (auto simp: avl_insert_def Let_def setters_upd split: option.splits sum.splits
      dest!: insert_retrace_calls)

theorem insert_rebalances_once_witness:
  "\<exists>r s'. avl_insert key_cmp (state_after [Insert 1, Insert 2]) 3 = Some (r, s') \<and>
     rebalance_calls s' \<le> rebalance_calls (state_after [Insert 1, Insert 2]) + 1"
proof -
  have "avl_insert key_cmp (state_after [Insert 1, Insert 2]) 3 \<noteq> None"
    by code_simp
  then obtain r s' where "avl_insert key_cmp (state_after [Insert 1, Insert 2]) 3 = Some (r, s')"
    by auto
  then show ?thesis
    using insert_rebalances_once by blast
qed

text \<open>
  Removing 9 from the tree built by twelve insertions rotates at 10 and then again at
  the root 8: one call of \<^verbatim>\<open>avl_remove\<close>, two invocations of \<^verbatim>\<open>avl_rebalance\<close>.
\<close>

theorem remove_rebalances_twice:
  "remove_calls (state_after (map Insert [8, 3, 10, 2, 5, 9, 12, 1, 4, 6, 11, 7])) 9 = Some 2"
  by code_simp

section \<open>The retrace of a removal\<close>

text \<open>
  The retrace as the specification words it, as a relation between the state in which
  the retrace stands at the ancestor \<^verbatim>\<open>p\<close>, reached from its child slot \<^verbatim>\<open>w\<close>
  whose subtree has become shorter, and the state in which it ends.  The balance of
  the ancestor is adjusted by 1 when the left slot is the shorter one and by -1 when
  the right one is.  An adjusted balance of 0 is stored and the retrace continues at
  the parent; a magnitude of 1 is stored and the retrace stops; at a larger magnitude
  \<^verbatim>\<open>avl_rebalance\<close> is invoked on the ancestor, and the retrace stops when it reports
  0 (height unchanged) and continues at the parent the ancestor had otherwise.
\<close>

inductive retrace_spec :: "avl_state \<Rightarrow> addr option \<Rightarrow> int \<Rightarrow> avl_state \<Rightarrow> bool" where
  at_root: "retrace_spec s None w s"
| continue_zero:
    "avl_balance (heap s a) + (if w = 0 then 1 else - 1) = 0 \<Longrightarrow>
     retrace_spec (set_balance s a 0) (avl_parent (heap s a)) (avl_which_child s a) s' \<Longrightarrow>
     retrace_spec s (Some a) w s'"
| stop_one:
    "b = avl_balance (heap s a) + (if w = 0 then 1 else - 1) \<Longrightarrow> \<bar>b\<bar> = 1 \<Longrightarrow>
     retrace_spec s (Some a) w (set_balance s a b)"
| rotate_stop:
    "1 < \<bar>avl_balance (heap s a) + (if w = 0 then 1 else - 1)\<bar> \<Longrightarrow>
     avl_rebalance s a = Some (0, s') \<Longrightarrow>
     retrace_spec s (Some a) w s'"
| rotate_continue:
    "1 < \<bar>avl_balance (heap s a) + (if w = 0 then 1 else - 1)\<bar> \<Longrightarrow>
     avl_rebalance s a = Some (r, s1) \<Longrightarrow> r \<noteq> 0 \<Longrightarrow>
     retrace_spec s1 (avl_parent (heap s a)) (avl_which_child s a) s' \<Longrightarrow>
     retrace_spec s (Some a) w s'"

lemma remove_retrace_unfold:
  "avl_remove_retrace s (Some a) w =
     (if avl_balance (heap s a) + (if w = 0 then 1 else - 1) = 0 then
        avl_remove_retrace (set_balance s a 0) (avl_parent (heap s a)) (avl_which_child s a)
      else if \<bar>avl_balance (heap s a) + (if w = 0 then 1 else - 1)\<bar> = 1 then
        Some (set_balance s a (avl_balance (heap s a) + (if w = 0 then 1 else - 1)))
      else
        (case avl_rebalance s a of
           None \<Rightarrow> None
         | Some (r, s') \<Rightarrow>
             if r = 0 then Some s'
             else avl_remove_retrace s' (avl_parent (heap s a)) (avl_which_child s a)))"
proof -
  have a: "avl_abs_balance b = \<bar>b\<bar>" for b
    by (simp add: avl_abs_balance_def)
  have i: "avl_idx2cmp w * - 1 = (if w = 0 then 1 else - 1)"
    by (simp add: avl_idx2cmp_def)
  show ?thesis
    by (subst avl_remove_retrace.simps) (simp only: option.case a i abs_eq_0, simp)
qed

lemma retrace_spec_sound:
  "retrace_spec s p w s' \<Longrightarrow> avl_remove_retrace s p w = Some s'"
proof (induction rule: retrace_spec.induct)
  case (at_root s w)
  show ?case by simp
next
  case (continue_zero s a w s')
  then show ?case
    by (subst remove_retrace_unfold) simp
next
  case (stop_one b s a w)
  then show ?case
    by (subst remove_retrace_unfold) auto
next
  case (rotate_stop s a w s')
  then show ?case
    by (subst remove_retrace_unfold) auto
next
  case (rotate_continue s a w r s1 s')
  then show ?case
    by (subst remove_retrace_unfold) auto
qed

lemma retrace_step_complete:
  assumes IH: "\<And>s p w s'. f s p w = Some s' \<Longrightarrow> retrace_spec s p w s'"
    and eq: "(if avl_balance (heap s a) + (if w = 0 then 1 else - 1) = 0 then
        f (set_balance s a (avl_balance (heap s a) + (if w = 0 then 1 else - 1)))
          (avl_parent (heap s a)) (avl_which_child s a)
      else if \<bar>avl_balance (heap s a) + (if w = 0 then 1 else - 1)\<bar> = 1 then
        Some (set_balance s a (avl_balance (heap s a) + (if w = 0 then 1 else - 1)))
      else
        (case avl_rebalance s a of
           None \<Rightarrow> None
         | Some (r, s') \<Rightarrow>
             if r = 0 then Some s'
             else f s' (avl_parent (heap s a)) (avl_which_child s a))) = Some s'"
  shows "retrace_spec s (Some a) w s'"
proof -
  define b where "b = avl_balance (heap s a) + (if w = 0 then 1 else - 1)"
  note eq' = eq[folded b_def]
  consider "b = 0" | "\<bar>b\<bar> = 1" | "1 < \<bar>b\<bar>" by linarith
  then show ?thesis
  proof cases
    case 1
    with eq' have "f (set_balance s a 0) (avl_parent (heap s a)) (avl_which_child s a) = Some s'"
      by simp
    from continue_zero[OF 1[unfolded b_def] IH[OF this]] show ?thesis .
  next
    case 2
    then have "b \<noteq> 0" by auto
    with eq' 2 have "s' = set_balance s a b" by simp
    with stop_one[OF b_def 2] show ?thesis by simp
  next
    case 3
    then have n: "b \<noteq> 0" "\<bar>b\<bar> \<noteq> 1" by auto
    from eq' n obtain r s1 where r: "avl_rebalance s a = Some (r, s1)"
      by (cases "avl_rebalance s a") auto
    show ?thesis
    proof (cases "r = 0")
      case True
      with eq' n r have "s1 = s'" by simp
      with rotate_stop[OF 3[unfolded b_def], of s'] r True show ?thesis
        by simp
    next
      case False
      with eq' n r have "f s1 (avl_parent (heap s a)) (avl_which_child s a) = Some s'"
        by simp
      from rotate_continue[OF 3[unfolded b_def] r False IH[OF this]] show ?thesis .
    qed
  qed
qed

lemma retrace_spec_complete:
  "avl_remove_retrace s p w = Some s' \<Longrightarrow> retrace_spec s p w s'"
proof (rule avl_remove_retrace.raw_induct[where P = retrace_spec], goal_cases)
  case (1 f s p w s')
  show ?case
  proof (cases p)
    case None
    then show ?thesis using 1 by (simp add: at_root)
  next
    case (Some a)
    have a: "avl_abs_balance b = \<bar>b\<bar>" for b
      by (simp add: avl_abs_balance_def)
    have i: "avl_idx2cmp w * - 1 = (if w = 0 then 1 else - 1)"
      by (simp add: avl_idx2cmp_def)
    have "retrace_spec s (Some a) w s'"
    proof (rule retrace_step_complete[where f = f])
      show "f s p w = Some s' \<Longrightarrow> retrace_spec s p w s'" for s p w s'
        using 1 by blast
      show "(if avl_balance (heap s a) + (if w = 0 then 1 else - 1) = 0 then
        f (set_balance s a (avl_balance (heap s a) + (if w = 0 then 1 else - 1)))
          (avl_parent (heap s a)) (avl_which_child s a)
      else if \<bar>avl_balance (heap s a) + (if w = 0 then 1 else - 1)\<bar> = 1 then
        Some (set_balance s a (avl_balance (heap s a) + (if w = 0 then 1 else - 1)))
      else
        (case avl_rebalance s a of
           None \<Rightarrow> None
         | Some (r, s') \<Rightarrow>
             if r = 0 then Some s'
             else f s' (avl_parent (heap s a)) (avl_which_child s a))) = Some s'"
        using 1 unfolding Some by (simp only: option.case a i abs_eq_0)
    qed
    then show ?thesis by (simp add: Some)
  qed
qed

text \<open>
  C5.  A call of \<^verbatim>\<open>avl_remove\<close> on \<^verbatim>\<open>x\<close> returns the state \<^verbatim>\<open>s'\<close> exactly when
  its splice leaves a state \<^verbatim>\<open>s1\<close>, with the retrace to start at the ancestor
  \<^verbatim>\<open>p\<close> from the slot \<^verbatim>\<open>w\<close>, from which the retrace of the specification ends
  in \<^verbatim>\<open>s'\<close>: it continues upward at an adjusted balance of 0, stops at magnitude 1,
  and beyond that invokes \<^verbatim>\<open>avl_rebalance\<close>, stopping when that returns 0 and
  continuing upward otherwise.
\<close>

theorem remove_retrace_flow:
  "avl_remove s x = Some s' \<longleftrightarrow>
     (\<exists>s1 p w. avl_remove_unlink s x = Some (s1, p, w) \<and> retrace_spec s1 p w s')"
proof (cases "avl_remove_unlink s x")
  case None
  then show ?thesis by (simp add: avl_remove_unlink)
next
  case (Some u)
  obtain s1 p w where u: "u = (s1, p, w)" by (cases u)
  have "avl_remove s x = avl_remove_retrace s1 p w"
    by (simp add: avl_remove_unlink Some u)
  then show ?thesis
    using retrace_spec_sound[of s1 p w s'] retrace_spec_complete[of s1 p w s']
    by (auto simp: Some u)
qed

text \<open>
  Three removals.  In the tree of 5, 2, 7, 1, 3, 6, 8, 4, 9 (inserted in this order),
  removing the leaf 4 adjusts 3 and then 2 to 0, continuing upward both times, and
  adjusts the root 5 to 1, where the retrace stops.  Removing the leaf 1 from the same
  tree finds 2 two too heavy on the right: \<^verbatim>\<open>avl_rebalance\<close> returns 1, the retrace
  continues at 5, adjusts it to 1 and stops.  In the tree of 2, 1, 4, 3, 5, removing 1
  finds 2 too heavy towards 4, whose balance is 0: \<^verbatim>\<open>avl_rebalance\<close> returns 0 and
  the retrace stops with the state it returned.
\<close>

theorem remove_retrace_flow_witness:
  "(\<exists>s1. avl_remove_unlink (state_after (map Insert [5, 2, 7, 1, 3, 6, 8, 4, 9])) 4 = Some (s1, Some 3, 1) \<and>
      avl_remove (state_after (map Insert [5, 2, 7, 1, 3, 6, 8, 4, 9])) 4 =
        Some (set_balance (set_balance (set_balance s1 3 0) 2 0) 5 1)) \<and>
   (\<exists>s1 s2. avl_remove_unlink (state_after (map Insert [5, 2, 7, 1, 3, 6, 8, 4, 9])) 1 = Some (s1, Some 2, 0) \<and>
      avl_rebalance s1 2 = Some (1, s2) \<and>
      avl_remove (state_after (map Insert [5, 2, 7, 1, 3, 6, 8, 4, 9])) 1 = Some (set_balance s2 5 1)) \<and>
   (\<exists>s1 s2. avl_remove_unlink (state_after (map Insert [2, 1, 4, 3, 5])) 1 = Some (s1, Some 2, 0) \<and>
      avl_rebalance s1 2 = Some (0, s2) \<and>
      avl_remove (state_after (map Insert [2, 1, 4, 3, 5])) 1 = Some s2)"
proof (intro conjI)
  define s1 where "s1 = fst (the (avl_remove_unlink (state_after (map Insert [5, 2, 7, 1, 3, 6, 8, 4, 9])) 4))"
  have "map_option snd (avl_remove_unlink (state_after (map Insert [5, 2, 7, 1, 3, 6, 8, 4, 9])) 4) = Some (Some 3, 1)"
    by code_simp
  then have u: "avl_remove_unlink (state_after (map Insert [5, 2, 7, 1, 3, 6, 8, 4, 9])) 4 = Some (s1, Some 3, 1)"
    by (cases "avl_remove_unlink (state_after (map Insert [5, 2, 7, 1, 3, 6, 8, 4, 9])) 4") (auto simp: s1_def)
  have f3: "avl_balance (heap s1 3) = 1" "avl_parent (heap s1 3) = Some 2"
    "avl_which_child s1 3 = 1"
    unfolding s1_def by code_simp+
  have f2: "avl_balance (heap (set_balance s1 3 0) 2) = 1"
    "avl_parent (heap (set_balance s1 3 0) 2) = Some 5"
    "avl_which_child (set_balance s1 3 0) 2 = 0"
    unfolding s1_def by code_simp+
  have f5: "avl_balance (heap (set_balance (set_balance s1 3 0) 2 0) 5) = 0"
    unfolding s1_def by code_simp
  have "retrace_spec (set_balance (set_balance s1 3 0) 2 0) (Some 5) 0
      (set_balance (set_balance (set_balance s1 3 0) 2 0) 5 1)"
    by (rule stop_one) (simp_all add: f5)
  then have "retrace_spec (set_balance s1 3 0) (Some 2) 1
      (set_balance (set_balance (set_balance s1 3 0) 2 0) 5 1)"
    by (intro continue_zero) (simp_all add: f2)
  then have "retrace_spec s1 (Some 3) 1
      (set_balance (set_balance (set_balance s1 3 0) 2 0) 5 1)"
    by (intro continue_zero) (simp_all add: f3)
  with u remove_retrace_flow[of "(state_after (map Insert [5, 2, 7, 1, 3, 6, 8, 4, 9]))" 4
      "set_balance (set_balance (set_balance s1 3 0) 2 0) 5 1"]
  show "\<exists>s1. avl_remove_unlink (state_after (map Insert [5, 2, 7, 1, 3, 6, 8, 4, 9])) 4 = Some (s1, Some 3, 1) \<and>
      avl_remove (state_after (map Insert [5, 2, 7, 1, 3, 6, 8, 4, 9])) 4 =
        Some (set_balance (set_balance (set_balance s1 3 0) 2 0) 5 1)"
    by blast
next
  define s1 where "s1 = fst (the (avl_remove_unlink (state_after (map Insert [5, 2, 7, 1, 3, 6, 8, 4, 9])) 1))"
  define s2 where "s2 = snd (the (avl_rebalance s1 2))"
  have "map_option snd (avl_remove_unlink (state_after (map Insert [5, 2, 7, 1, 3, 6, 8, 4, 9])) 1) = Some (Some 2, 0)"
    by code_simp
  then have u: "avl_remove_unlink (state_after (map Insert [5, 2, 7, 1, 3, 6, 8, 4, 9])) 1 = Some (s1, Some 2, 0)"
    by (cases "avl_remove_unlink (state_after (map Insert [5, 2, 7, 1, 3, 6, 8, 4, 9])) 1") (auto simp: s1_def)
  have "map_option fst (avl_rebalance s1 2) = Some 1"
    unfolding s1_def by code_simp
  then have r: "avl_rebalance s1 2 = Some (1, s2)"
    by (cases "avl_rebalance s1 2") (auto simp: s2_def)
  have f2: "avl_balance (heap s1 2) = 1" "avl_parent (heap s1 2) = Some 5"
    "avl_which_child s1 2 = 0"
    unfolding s1_def by code_simp+
  have f5: "avl_balance (heap s2 5) = 0"
    unfolding s2_def s1_def by code_simp
  have "retrace_spec s2 (Some 5) 0 (set_balance s2 5 1)"
    by (rule stop_one) (simp_all add: f5)
  then have "retrace_spec s1 (Some 2) 0 (set_balance s2 5 1)"
    by (intro rotate_continue[OF _ r]) (simp_all add: f2)
  with u r remove_retrace_flow[of "(state_after (map Insert [5, 2, 7, 1, 3, 6, 8, 4, 9]))" 1 "set_balance s2 5 1"]
  show "\<exists>s1 s2. avl_remove_unlink (state_after (map Insert [5, 2, 7, 1, 3, 6, 8, 4, 9])) 1 = Some (s1, Some 2, 0) \<and>
      avl_rebalance s1 2 = Some (1, s2) \<and>
      avl_remove (state_after (map Insert [5, 2, 7, 1, 3, 6, 8, 4, 9])) 1 = Some (set_balance s2 5 1)"
    by blast
next
  define s1 where "s1 = fst (the (avl_remove_unlink (state_after (map Insert [2, 1, 4, 3, 5])) 1))"
  define s2 where "s2 = snd (the (avl_rebalance s1 2))"
  have "map_option snd (avl_remove_unlink (state_after (map Insert [2, 1, 4, 3, 5])) 1) = Some (Some 2, 0)"
    by code_simp
  then have u: "avl_remove_unlink (state_after (map Insert [2, 1, 4, 3, 5])) 1 = Some (s1, Some 2, 0)"
    by (cases "avl_remove_unlink (state_after (map Insert [2, 1, 4, 3, 5])) 1") (auto simp: s1_def)
  have "map_option fst (avl_rebalance s1 2) = Some 0"
    unfolding s1_def by code_simp
  then have r: "avl_rebalance s1 2 = Some (0, s2)"
    by (cases "avl_rebalance s1 2") (auto simp: s2_def)
  have f2: "avl_balance (heap s1 2) = 1"
    unfolding s1_def by code_simp
  have "retrace_spec s1 (Some 2) 0 s2"
    by (rule rotate_stop[OF _ r]) (simp add: f2)
  with u r remove_retrace_flow[of "(state_after (map Insert [2, 1, 4, 3, 5]))" 1 s2]
  show "\<exists>s1 s2. avl_remove_unlink (state_after (map Insert [2, 1, 4, 3, 5])) 1 = Some (s1, Some 2, 0) \<and>
      avl_rebalance s1 2 = Some (0, s2) \<and>
      avl_remove (state_after (map Insert [2, 1, 4, 3, 5])) 1 = Some s2"
    by blast
qed

section \<open>The balance invariant\<close>

fun subtrees :: "tree \<Rightarrow> tree set" where
  "subtrees Leaf = {}"
| "subtrees (Node l a b r) = insert (Node l a b r) (subtrees l \<union> subtrees r)"

lemma rep_balanced_subtree:
  "rep h t \<Longrightarrow> balanced t \<Longrightarrow> Node l a b r \<in> subtrees t \<Longrightarrow>
   avl_balance (h a) = ht r - ht l \<and> \<bar>avl_balance (h a)\<bar> \<le> 1 \<and> a \<in> nodes t"
  by (induction t) auto

text \<open>
  C1.  Take a comparator that keeps its contract, an empty root handle, and a list of
  calls that removes only nodes that are in the tree.  Every call returns, and the
  memory then holds a tree \<^verbatim>\<open>t\<close> on exactly the caller's nodes in which every
  node's \<^verbatim>\<open>avl_balance\<close> is the height of its right subtree minus the height of
  its left subtree, and is -1, 0 or 1.
\<close>

theorem balance_invariant:
  assumes "cmp_ok cmpfunc" "avl_root s = None" "members cmpfunc ops {} = Some S"
  shows "\<exists>s' t. avl_ops cmpfunc ops s = Some s' \<and> heap_tree s' t \<and> nodes t = S \<and>
           (\<forall>l a b r. Node l a b r \<in> subtrees t \<longrightarrow>
              avl_balance (heap s' a) = ht r - ht l \<and> \<bar>avl_balance (heap s' a)\<bar> \<le> 1)"
proof -
  from run_invariant[OF assms]
  obtain s' t where r: "avl_ops cmpfunc ops s = Some s'" "heap_tree s' t" "balanced t"
    "nodes t = S"
    by blast
  have "rep (heap s') t" using r(2) by (simp add: heap_tree_def zip_rep_def)
  from rep_balanced_subtree[OF this r(3)] r show ?thesis
    by blast
qed

theorem balance_invariant_witness:
  "\<exists>s' t. avl_ops key_cmp [Insert 2, Insert 1, Insert 3, Insert 4, Remove 2] empty_state = Some s' \<and>
     heap_tree s' t \<and> nodes t = {1, 3, 4} \<and>
     (\<forall>l a b r. Node l a b r \<in> subtrees t \<longrightarrow>
        avl_balance (heap s' a) = ht r - ht l \<and> \<bar>avl_balance (heap s' a)\<bar> \<le> 1)"
proof -
  have "members key_cmp [Insert 2, Insert 1, Insert 3, Insert 4, Remove 2] {} = Some {1, 3, 4}"
    by (auto simp: key_cmp_def)
  from balance_invariant[OF key_cmp_ok _ this, of empty_state] show ?thesis
    by (simp add: empty_state_def)
qed

section \<open>Inserting a key that is in the tree\<close>

text \<open>
  C3.  When the tree holds a node \<^verbatim>\<open>m\<close> that compares equal to the node
  \<^verbatim>\<open>n\<close> of the call, \<^verbatim>\<open>avl_insert\<close> returns \<^verbatim>\<open>m\<close> and the state of the
  call: the root handle and every field of every node, those of \<^verbatim>\<open>n\<close> included,
  are as they were, so \<^verbatim>\<open>n\<close> is not linked and no balance has changed.
\<close>

theorem insert_existing_key:
  assumes "cmp_ok cmpfunc" "heap_tree s t" "bst cmpfunc t" "m \<in> nodes t" "cmpfunc n m = 0"
  shows "avl_insert cmpfunc s n = Some (m, s)"
  using assms by (rule insert_duplicate)

text \<open>
  The comparator of a caller whose nodes 2k and 2k+1 carry the same key k.  With 2, 4
  and 6 in the tree, inserting 5 returns 4 and changes nothing.
\<close>

definition half_cmp :: avl_cmp_t where
  "half_cmp a b = key_cmp (a div 2) (b div 2)"

lemma half_cmp_ok: "cmp_ok half_cmp"
  by (auto simp: cmp_ok_def half_cmp_def key_cmp_def)

theorem insert_existing_key_witness:
  "avl_insert half_cmp (the (avl_ops half_cmp [Insert 2, Insert 4, Insert 6] empty_state)) 5 =
     Some (4, the (avl_ops half_cmp [Insert 2, Insert 4, Insert 6] empty_state))"
proof -
  have "members half_cmp [Insert 2, Insert 4, Insert 6] {} = Some {2, 4, 6}"
    by (auto simp: half_cmp_def key_cmp_def)
  from run_invariant[OF half_cmp_ok _ this, of empty_state]
  obtain s' t where r: "avl_ops half_cmp [Insert 2, Insert 4, Insert 6] empty_state = Some s'"
    "heap_tree s' t" "bst half_cmp t" "nodes t = {2, 4, 6}"
    by (auto simp: empty_state_def)
  have "half_cmp 5 4 = 0"
    by (simp add: half_cmp_def key_cmp_def)
  from insert_existing_key[OF half_cmp_ok r(2,3) _ this] r(1,4) show ?thesis
    by simp
qed

section \<open>The removed node is not written\<close>

text \<open>
  C10.  Removing a node \<^verbatim>\<open>x\<close> of a balanced tree returns, and in the state
  returned the three fields of \<^verbatim>\<open>x\<close> are what they were at the call; the memory
  then holds a tree on the other nodes, in which nothing refers to \<^verbatim>\<open>x\<close>.
\<close>

theorem remove_keeps_node:
  assumes "heap_tree s t" "balanced t" "x \<in> nodes t"
  shows "\<exists>s' t'. avl_remove s x = Some s' \<and> heap s' x = heap s x \<and>
           heap_tree s' t' \<and> nodes t' = nodes t - {x}"
  using remove_correct[OF assms] by blast

theorem remove_keeps_node_witness:
  "\<exists>s' t'. avl_remove (state_after [Insert 2, Insert 1, Insert 3, Insert 4]) 2 = Some s' \<and>
     heap s' 2 = heap (state_after [Insert 2, Insert 1, Insert 3, Insert 4]) 2 \<and>
     heap_tree s' t' \<and> nodes t' = {1, 3, 4}"
proof -
  have "members key_cmp [Insert 2, Insert 1, Insert 3, Insert 4] {} = Some {1, 2, 3, 4}"
    by (auto simp: key_cmp_def)
  from run_invariant[OF key_cmp_ok _ this, of empty_state]
  obtain s t where r: "avl_ops key_cmp [Insert 2, Insert 1, Insert 3, Insert 4] empty_state = Some s"
    "heap_tree s t" "balanced t" "nodes t = {1, 2, 3, 4}"
    by (auto simp: empty_state_def)
  have s: "state_after [Insert 2, Insert 1, Insert 3, Insert 4] = s"
    by (simp only: state_after_def r(1) option.sel)
  have "nodes t - {2} = {1, 3, 4}" using r(4) by auto
  with remove_keeps_node[OF r(2,3), of 2] r(4) show ?thesis
    unfolding s by simp
qed

section \<open>The replacement of a removed node\<close>

text \<open>
  C9.  Let \<^verbatim>\<open>x\<close> be a node of a balanced tree with at least one child.  The call
  of \<^verbatim>\<open>avl_prev_next\<close> that \<^verbatim>\<open>avl_remove\<close> makes first (towards the
  predecessor when the balance of \<^verbatim>\<open>x\<close> is negative, towards the successor
  otherwise) returns a node \<^verbatim>\<open>m\<close>, not \<^verbatim>\<open>NULL\<close>, and \<^verbatim>\<open>m\<close> is in the subtree
  below \<^verbatim>\<open>x\<close> on that side; it is the replacement chosen, and the call in the other
  direction is not made.
\<close>

theorem remove_pick_preferred:
  assumes "heap_tree s t" "balanced t" "x \<in> nodes t"
    and "avl_children (heap s x) 0 \<noteq> None \<or> avl_children (heap s x) 1 \<noteq> None"
  shows "\<exists>m c l b r. t = plug c (Node l x b r) \<and> b = avl_balance (heap s x) \<and>
           avl_prev_next s x (if b < 0 then - 1 else 1) = Some (Some m) \<and>
           m \<in> (if b < 0 then nodes l else nodes r) \<and>
           avl_remove_pick s x = Some (Some m)"
proof -
  from nodes_plug_ex[OF assms(3)] obtain c l b r where t: "t = plug c (Node l x b r)" by blast
  have z: "zip_rep s c (Node l x b r)"
    using assms(1) by (simp add: t zip_rep_plug)
  then have rp: "rep (heap s) (Node l x b r)" by (rule zip_repD)
  have bal: "b = ht r - ht l"
    using assms(2) unfolding t balanced_plug by simp
  have b: "avl_balance (heap s x) = b" using rp by simp
  have nl: "l \<noteq> Leaf \<or> r \<noteq> Leaf"
    using assms(4) rp by (cases l; cases r) auto
  define d where "d = (0 \<le> b)"
  define D where "D = (if d then r else l)"
  define U where "U = (if d then l else r)"
  have tm: "Node l x b r = mk d x b D U"
    by (simp add: mk_def D_def U_def)
  have D: "D \<noteq> Leaf"
    using nl bal ht_nonneg[of l] ht_nonneg[of r] ht_0[of l] ht_0[of r]
    by (auto simp: D_def d_def)
  obtain c2 M where dn: "down (\<not> d) D [] = (c2, M)"
    by (cases "down (\<not> d) D []")
  from prev_next_down[OF rp[unfolded tm] D dn]
  obtain m where m: "root_ptr M = Some m" "avl_prev_next s x (sg d) = Some (Some m)"
    by blast
  from remove_pick_sim[OF rp[unfolded tm] D dn d_def[symmetric]] m(1)
  have pick: "avl_remove_pick s x = Some (Some m)" by simp
  from down_props[OF D dn] have "plug c2 M = D" by auto
  then have "nodes M \<subseteq> nodes D"
    using nodes_plug[of c2 M] by auto
  then have "m \<in> nodes D" using root_ptr_nodes[OF m(1)] by auto
  then have mem: "m \<in> (if b < 0 then nodes l else nodes r)"
    by (auto simp: D_def d_def)
  have "sg d = (if b < 0 then - 1 else 1)"
    by (auto simp: d_def)
  with t b m(2) mem pick show ?thesis
    by (intro exI[of _ m] exI[of _ c] exI[of _ l] exI[of _ b] exI[of _ r]) simp
qed

theorem remove_pick_preferred_witness:
  "\<exists>m. avl_remove_pick (state_after [Insert 2, Insert 1, Insert 3, Insert 4]) 2 = Some (Some m) \<and>
     avl_prev_next (state_after [Insert 2, Insert 1, Insert 3, Insert 4]) 2 1 = Some (Some m)"
proof -
  have "members key_cmp [Insert 2, Insert 1, Insert 3, Insert 4] {} = Some {1, 2, 3, 4}"
    by (auto simp: key_cmp_def)
  from run_invariant[OF key_cmp_ok _ this, of empty_state]
  obtain s t where r: "avl_ops key_cmp [Insert 2, Insert 1, Insert 3, Insert 4] empty_state = Some s"
    "heap_tree s t" "balanced t" "nodes t = {1, 2, 3, 4}"
    by (auto simp: empty_state_def)
  have s: "state_after [Insert 2, Insert 1, Insert 3, Insert 4] = s"
    by (simp only: state_after_def r(1) option.sel)
  have c: "avl_children (heap (state_after [Insert 2, Insert 1, Insert 3, Insert 4]) 2) 0 \<noteq> None"
    by code_simp
  have b: "avl_balance (heap (state_after [Insert 2, Insert 1, Insert 3, Insert 4]) 2) = 1"
    by code_simp
  from remove_pick_preferred[OF r(2,3), of 2] r(4) c b show ?thesis
    unfolding s by auto
qed

section \<open>The rotation that keeps the height\<close>

text \<open>
  C7.  \<^verbatim>\<open>avl_rebalance\<close> is invoked on \<^verbatim>\<open>R\<close>, which leans to the side \<^verbatim>\<open>d\<close>
  (its balance is 1 for right, -1 for left); the child \<^verbatim>\<open>S\<close> on that side has
  balance 0, rightly so (its subtrees \<^verbatim>\<open>X\<close> and \<^verbatim>\<open>B\<close> are equally high), and is
  two higher than the other subtree \<^verbatim>\<open>Y\<close> of \<^verbatim>\<open>R\<close>.  Then the call returns 0
  after a single rotation that puts \<^verbatim>\<open>S\<close> above \<^verbatim>\<open>R\<close>; the balances of
  \<^verbatim>\<open>S\<close> and \<^verbatim>\<open>R\<close> are then negations of each other, the subtree is as high as
  before, and the retrace of a removal that has come to \<^verbatim>\<open>R\<close> from the side of
  \<^verbatim>\<open>Y\<close> ends with the state that \<^verbatim>\<open>avl_rebalance\<close> returned.
\<close>

theorem rebalance_keeps_height:
  assumes "zip_rep s c (mk d R br (mk d S 0 X B) Y)" "br = sg d"
    and "ht X = ht B" "ht (mk d S 0 X B) = ht Y + 2"
  shows "\<exists>s'. avl_rebalance s R = Some (0, s') \<and>
           zip_rep s' c (mk d S (- br) X (mk d R br B Y)) \<and>
           avl_balance (heap s' S) = - avl_balance (heap s' R) \<and>
           ht (mk d S (- br) X (mk d R br B Y)) = ht (mk d R br (mk d S 0 X B) Y) \<and>
           avl_remove_retrace s (Some R) (idx (\<not> d)) = Some s'"
proof -
  have br: "br \<noteq> 0" "avl_balance2idx br = idx d"
    using assms(2) by simp_all
  from rebalance_case3[OF assms(1) br(2,1)]
  obtain s' where s': "avl_rebalance s R = Some (0, s')"
    "zip_rep s' c (mk d S (- br) X (mk d R br B Y))"
    by blast
  have "rep (heap s') (mk d S (- br) X (mk d R br B Y))"
    using s'(2) by (rule zip_repD)
  then have bs: "avl_balance (heap s' S) = - br" "avl_balance (heap s' R) = br"
    by simp_all
  have "rep (heap s) (mk d R br (mk d S 0 X B) Y)"
    using assms(1) by (rule zip_repD)
  then have b: "avl_balance (heap s R) = sg d"
    using assms(2) by simp
  have h: "ht (mk d S (- br) X (mk d R br B Y)) = ht (mk d R br (mk d S 0 X B) Y)"
    using assms(3,4) by simp
  have "avl_remove_retrace s (Some R) (idx (\<not> d)) = Some s'"
    by (subst avl_remove_retrace.simps) (cases d; simp add: b s'(1) avl_abs_balance_def avl_idx2cmp_def)
  with s' bs h show ?thesis by simp
qed

text \<open>
  The removal of 1 below 2 has cleared the left slot of 2; its right child 4 has the
  children 3 and 5.  The retrace comes to 2 from slot 0.
\<close>

definition keep_state :: avl_state where
  "keep_state =
     \<lparr>avl_root = Some 2,
      heap = (\<lambda>_. null_node)
        (2 := node_of None (Some 4) None 1,
         4 := node_of (Some 3) (Some 5) (Some 2) 0,
         3 := node_of None None (Some 4) 0,
         5 := node_of None None (Some 4) 0),
      rebalance_calls = 0\<rparr>"

theorem rebalance_keeps_height_witness:
  "\<exists>s'. avl_rebalance keep_state 2 = Some (0, s') \<and>
     zip_rep s' [] (Node (Node Leaf 2 1 (Node Leaf 3 0 Leaf)) 4 (- 1) (Node Leaf 5 0 Leaf)) \<and>
     avl_balance (heap s' 4) = - avl_balance (heap s' 2) \<and>
     avl_remove_retrace keep_state (Some 2) 0 = Some s'"
proof -
  have "zip_rep keep_state []
      (mk True 2 1 (mk True 4 0 (Node Leaf 5 0 Leaf) (Node Leaf 3 0 Leaf)) Leaf)"
    by (simp add: zip_rep_def keep_state_def node_of_def par_ok_def mk_def)
  from rebalance_keeps_height[OF this] show ?thesis
    by (simp add: mk_def)
qed

section \<open>Traversal\<close>

text \<open>A list's first element as a pointer: \<^verbatim>\<open>NULL\<close> when there is none.\<close>

definition first_opt :: "addr list \<Rightarrow> addr option" where
  "first_opt xs = (case xs of [] \<Rightarrow> None | y # _ \<Rightarrow> Some y)"

lemma first_opt_simps [simp]:
  "first_opt [] = None" "first_opt (y # ys) = Some y"
  "first_opt (xs @ ys) = (if xs = [] then first_opt ys else first_opt xs)"
  by (auto simp: first_opt_def split: list.splits)

lemma climb_sim:
  assumes "rep_ctx (heap s) root c (Some n)" "n \<notin> ctx_nodes c"
  shows "avl_climb s (idx e) (ctx_par c) n = Some (first_opt (post e c))"
  using assms
proof (induction c arbitrary: n)
  case Nil
  show ?case by (subst avl_climb.simps) simp
next
  case (Cons f c)
  obtain d a b u where f: "f = (d, a, b, u)" by (cases f)
  have r: "avl_children (heap s a) (idx d) = Some n"
    "avl_children (heap s a) (idx (\<not> d)) = root_ptr u" "avl_parent (heap s a) = ctx_par c"
    "rep_ctx (heap s) root c (Some a)" "a \<notin> ctx_nodes c" "n \<notin> nodes u"
    using Cons.prems by (auto simp: f)
  show ?case
  proof (cases "d = e")
    case True
    from Cons.IH[OF r(4,5)] show ?thesis
      by (subst avl_climb.simps) (use r(1,3) True in \<open>simp add: f\<close>)
  next
    case False
    then have e: "e = (\<not> d)" by auto
    have "root_ptr u \<noteq> Some n"
      using r(6) root_ptr_nodes by blast
    then show ?thesis
      by (subst avl_climb.simps) (use r(2) False in \<open>simp add: f e\<close>)
  qed
qed

lemma down_first:
  assumes "D \<noteq> Leaf" "down (\<not> e) D [] = (c2, M)" "root_ptr M = Some m"
  shows "first_opt (trav e D) = Some m"
proof -
  from down_props[OF assms(1,2)]
  obtain m' bm g where M: "M = mk (\<not> e) m' bm Leaf g" "plug c2 M = D"
    "\<forall>f\<in>set c2. fst f = (\<not> e)"
    by auto
  have "m' = m" using assms(3) by (simp add: M(1))
  moreover have "trav e D = pre e c2 @ trav e M @ post e c2"
    using trav_plug[of e c2 M] M(2) by simp
  moreover have "pre e c2 = []" using M(3) by (rule pre_all_other)
  ultimately show ?thesis by (simp add: M(1))
qed

lemma prev_next_zip:
  assumes z: "zip_rep s c (mk e x b D U)"
  shows "avl_prev_next s x (sg e) = Some (first_opt (trav e D @ post e c))"
proof (cases "D = Leaf")
  case True
  have "avl_children (heap s x) (idx e) = None" "avl_parent (heap s x) = ctx_par c"
    "rep_ctx (heap s) (avl_root s) c (Some x)" "x \<notin> ctx_nodes c"
    using z by (auto simp: zip_rep_def True par_ok_def)
  with climb_sim[of s "avl_root s" c x e] show ?thesis
    by (simp add: avl_prev_next_def True)
next
  case False
  have rp: "rep (heap s) (mk e x b D U)" using z by (rule zip_repD)
  obtain c2 M where dn: "down (\<not> e) D [] = (c2, M)"
    by (cases "down (\<not> e) D []")
  from prev_next_down[OF rp False dn]
  obtain m where m: "root_ptr M = Some m" "avl_prev_next s x (sg e) = Some (Some m)"
    by blast
  from down_first[OF False dn m(1)] False m(2) show ?thesis
    by (cases "trav e D") auto
qed

lemma rep_distinct_trav: "rep h t \<Longrightarrow> distinct (trav e t)"
  using rep_distinct[of h t] by (simp add: trav_def)

lemma prev_next_sim:
  assumes h: "heap_tree s t" and tr: "trav e t = xs @ x # ys"
  shows "avl_prev_next s x (sg e) = Some (first_opt ys)"
proof -
  have "x \<in> nodes t"
    using set_trav[of e t] tr by auto
  from nodes_plug_ex[OF this] obtain c l b r where t: "t = plug c (Node l x b r)" by blast
  obtain D U where tm: "Node l x b r = mk e x b D U"
    using Node_is_mk[of l x b r e] by auto
  have z: "zip_rep s c (mk e x b D U)"
    using h by (simp add: t tm zip_rep_plug)
  have "rep (heap s) t" using h by (simp add: heap_tree_def zip_rep_def)
  then have di: "distinct (xs @ x # ys)"
    using rep_distinct_trav[of "heap s" t e] tr by simp
  have "xs @ x # ys = (pre e c @ trav e U) @ x # (trav e D @ post e c)"
    using tr by (simp add: t tm trav_plug)
  with di have "ys = trav e D @ post e c"
    by (subst (asm) append_Cons_eq_iff) auto
  with prev_next_zip[OF z] show ?thesis by simp
qed

lemma trav_Nil [simp]: "trav e t = [] \<longleftrightarrow> t = Leaf"
  by (cases t) (auto simp: trav_def)

lemma lr_loop_sim:
  assumes "rep (heap s) t"
  shows "avl_lr_loop s (idx e) (root_ptr t) prev =
           Some (if t = Leaf then prev else first_opt (trav (\<not> e) t))"
  using assms
proof (induction t arbitrary: prev rule: tree_induct_mk[where e = e])
  case Leaf
  show ?case by (subst avl_lr_loop.simps) simp
next
  case (mk a b t u)
  have "rep (heap s) t" "avl_children (heap s a) (idx e) = root_ptr t"
    using mk.prems by auto
  with mk.IH(1)[of "Some a"] show ?case
    by (subst avl_lr_loop.simps) (auto simp: first_opt_def split: list.splits)
qed

lemma first_sim: "heap_tree s t \<Longrightarrow> avl_first s = Some (first_opt (inorder t))"
  using lr_loop_sim[of s t False None]
  by (auto simp: avl_first_def avl_leftmost_rightmost_def avl_cmp2idx_def heap_tree_def zip_rep_def)

lemma last_sim: "heap_tree s t \<Longrightarrow> avl_last s = Some (first_opt (rev (inorder t)))"
  using lr_loop_sim[of s t True None]
  by (auto simp: avl_last_def avl_leftmost_rightmost_def avl_cmp2idx_def heap_tree_def zip_rep_def
      trav_def)

lemma next_sim:
  "heap_tree s t \<Longrightarrow> inorder t = xs @ x # ys \<Longrightarrow> avl_next s x = Some (first_opt ys)"
  using prev_next_sim[of s t True xs x ys] by (simp add: avl_next_def)

lemma prev_sim:
  "heap_tree s t \<Longrightarrow> inorder t = xs @ x # ys \<Longrightarrow> avl_prev s x = Some (first_opt (rev xs))"
  using prev_next_sim[of s t False "rev ys" x "rev xs"] by (simp add: avl_prev_def trav_def)

text \<open>
  The loop of a caller that walks the tree, \<^verbatim>\<open>for (n = avl_first(root); n; n = avl_next(n))\<close>,
  with the nodes it visits in the order of the visits.
\<close>

partial_function (option) avl_walk ::
  "avl_state \<Rightarrow> addr option \<Rightarrow> addr list \<Rightarrow> addr list option" where
  "avl_walk s node seen =
     (case node of
        None \<Rightarrow> Some (rev seen)
      | Some n \<Rightarrow>
          (case avl_next s n of
             None \<Rightarrow> None
           | Some nx \<Rightarrow> avl_walk s nx (n # seen)))"

definition avl_iterate :: "avl_state \<Rightarrow> addr list option" where
  "avl_iterate s = (case avl_first s of None \<Rightarrow> None | Some n \<Rightarrow> avl_walk s n [])"

lemma walk_sim:
  "heap_tree s t \<Longrightarrow> inorder t = xs @ ys \<Longrightarrow>
   avl_walk s (first_opt ys) seen = Some (rev seen @ ys)"
proof (induction ys arbitrary: xs seen)
  case Nil
  show ?case by (subst avl_walk.simps) simp
next
  case (Cons y ys)
  from Cons.IH[OF Cons.prems(1), of "xs @ [y]" "y # seen"] Cons.prems(2)
  have "avl_walk s (first_opt ys) (y # seen) = Some (rev seen @ y # ys)" by simp
  with next_sim[OF Cons.prems] show ?case
    by (subst avl_walk.simps) simp
qed

lemma iterate_sim: "heap_tree s t \<Longrightarrow> avl_iterate s = Some (inorder t)"
  using walk_sim[of s t "[]" "inorder t" "[]"] first_sim[of s t] by (simp add: avl_iterate_def)

section \<open>The walk in order, and its inverse steps\<close>

declare avl_walk.simps [code]

lemma key_cmp_inorder:
  assumes "bst key_cmp t" "nodes t = set xs" "sorted_wrt (<) xs"
  shows "inorder t = xs"
proof -
  have "lt key_cmp = (<)"
    by (intro ext) (simp add: lt_def key_cmp_def)
  then have "sorted_wrt (<) (inorder t)"
    using assms(1) by (simp add: bst_def)
  from strict_sorted_equal[OF assms(3) this] assms(2) show ?thesis
    by (simp add: nodes_inorder)
qed

text \<open>
  C2.  Take a comparator that keeps its contract, an empty root handle, and a list of
  calls that removes only nodes that are in the tree.  After the calls, the walk from
  \<^verbatim>\<open>avl_first\<close> along \<^verbatim>\<open>avl_next\<close> ends, and the nodes it has visited are the
  caller's nodes, each once, every one comparing less than the ones after it.
\<close>

theorem iterate_sorted:
  assumes "cmp_ok cmpfunc" "avl_root s = None" "members cmpfunc ops {} = Some S"
  shows "\<exists>s' xs. avl_ops cmpfunc ops s = Some s' \<and> avl_iterate s' = Some xs \<and>
           set xs = S \<and> distinct xs \<and> sorted_wrt (\<lambda>a b. cmpfunc a b < 0) xs"
proof -
  from run_invariant[OF assms]
  obtain s' t where r: "avl_ops cmpfunc ops s = Some s'" "heap_tree s' t" "bst cmpfunc t"
    "nodes t = S"
    by blast
  have "rep (heap s') t" using r(2) by (simp add: heap_tree_def zip_rep_def)
  then have "distinct (inorder t)" by (rule rep_distinct)
  moreover have "sorted_wrt (\<lambda>a b. cmpfunc a b < 0) (inorder t)"
    using r(3) by (simp add: bst_def lt_def[abs_def])
  ultimately show ?thesis
    using r(1,4) iterate_sim[OF r(2)] by (auto simp: nodes_inorder)
qed

theorem iterate_sorted_witness:
  "avl_iterate (state_after [Insert 2, Insert 1, Insert 3, Insert 4, Remove 2]) = Some [1, 3, 4]"
proof -
  have "members key_cmp [Insert 2, Insert 1, Insert 3, Insert 4, Remove 2] {} = Some {1, 3, 4}"
    by (auto simp: key_cmp_def)
  from iterate_sorted[OF key_cmp_ok _ this, of empty_state]
  obtain s' xs where r:
    "avl_ops key_cmp [Insert 2, Insert 1, Insert 3, Insert 4, Remove 2] empty_state = Some s'"
    "avl_iterate s' = Some xs" "set xs = {1, 3, 4}" "sorted_wrt (\<lambda>a b. key_cmp a b < 0) xs"
    by (auto simp: empty_state_def)
  have s: "state_after [Insert 2, Insert 1, Insert 3, Insert 4, Remove 2] = s'"
    by (simp only: state_after_def r(1) option.sel)
  have "(\<lambda>a b. key_cmp a b < 0) = (<)"
    by (intro ext) (simp add: key_cmp_def)
  then have "sorted_wrt (<) xs" using r(4) by simp
  from strict_sorted_equal[OF this, of "[1, 3, 4]"] r(3) have "xs = [1, 3, 4]"
    by simp
  with r(2) show ?thesis
    unfolding s by simp
qed

text \<open>
  C8.  Let \<^verbatim>\<open>x\<close> be a node of the tree with the in-order predecessor \<^verbatim>\<open>p\<close> and
  the in-order successor \<^verbatim>\<open>n\<close>.  Then \<^verbatim>\<open>avl_next\<close> at \<^verbatim>\<open>x\<close> is \<^verbatim>\<open>n\<close> and
  \<^verbatim>\<open>avl_prev\<close> at \<^verbatim>\<open>n\<close> is \<^verbatim>\<open>x\<close>; \<^verbatim>\<open>avl_prev\<close> at \<^verbatim>\<open>x\<close> is \<^verbatim>\<open>p\<close> and
  \<^verbatim>\<open>avl_next\<close> at \<^verbatim>\<open>p\<close> is \<^verbatim>\<open>x\<close>.
\<close>

theorem prev_next_inverse:
  assumes "heap_tree s t" "inorder t = xs @ p # x # n # ys"
  shows "avl_next s x = Some (Some n) \<and> avl_prev s n = Some (Some x) \<and>
         avl_prev s x = Some (Some p) \<and> avl_next s p = Some (Some x)"
  using next_sim[OF assms(1), of "xs @ [p]" x "n # ys"]
    prev_sim[OF assms(1), of "xs @ [p, x]" n ys]
    prev_sim[OF assms(1), of "xs @ [p]" x "n # ys"]
    next_sim[OF assms(1), of xs p "x # n # ys"] assms(2)
  by simp

theorem prev_next_inverse_witness:
  "avl_next (state_after [Insert 2, Insert 1, Insert 3]) 2 = Some (Some 3) \<and>
   avl_prev (state_after [Insert 2, Insert 1, Insert 3]) 3 = Some (Some 2) \<and>
   avl_prev (state_after [Insert 2, Insert 1, Insert 3]) 2 = Some (Some 1) \<and>
   avl_next (state_after [Insert 2, Insert 1, Insert 3]) 1 = Some (Some 2)"
proof -
  have "members key_cmp [Insert 2, Insert 1, Insert 3] {} = Some {1, 2, 3}"
    by (auto simp: key_cmp_def)
  from run_invariant[OF key_cmp_ok _ this, of empty_state]
  obtain s t where r: "avl_ops key_cmp [Insert 2, Insert 1, Insert 3] empty_state = Some s"
    "heap_tree s t" "bst key_cmp t" "nodes t = {1, 2, 3}"
    by (auto simp: empty_state_def)
  have s: "state_after [Insert 2, Insert 1, Insert 3] = s"
    by (simp only: state_after_def r(1) option.sel)
  have "inorder t = [] @ 1 # 2 # 3 # []"
    using key_cmp_inorder[OF r(3), of "[1, 2, 3]"] r(4) by simp
  from prev_next_inverse[OF r(2) this] show ?thesis
    unfolding s .
qed

text \<open>The walk over the tree of twelve nodes used above.\<close>

lemma iterate_example:
  "avl_iterate (state_after (map Insert [8, 3, 10, 2, 5, 9, 12, 1, 4, 6, 11, 7])) =
     Some [1, 2, 3, 4, 5, 6, 7, 8, 9, 10, 11, 12]"
  by code_simp

end
